theory Spec2Isabelle
  imports Complex_Main "HOL-Library.Multiset" "HOL-Library.Product_Lexorder" "HOL-Library.Sublist"
    "HOL-Library.Log_Nat"
begin

section \<open>JavaScript values used by the puzzle engine\<close>

text \<open>
  The engine is the module \<^verbatim>\<open>utils/puzzleGen\<close> (\<^verbatim>\<open>src/unnamed/part_001\<close>).

  A JavaScript string is a sequence of UTF-16 code units, here a list of their numbers, so
  that \<^verbatim>\<open>s.length\<close> is \<^const>\<open>length\<close> and \<^verbatim>\<open>s[i]\<close> (for \<open>i\<close> in range) is the
  one-unit string \<open>[s ! i]\<close>.
\<close>

type_synonym jsstring = "nat list"

definition js :: "string \<Rightarrow> jsstring" where
  \<comment> \<open>an ASCII literal as a JavaScript string\<close>
  "js s = map of_char s"

datatype js_error = TypeError | RangeError

text \<open>\<^verbatim>\<open>a % b\<close> takes the sign of the dividend (truncated division).\<close>

definition js_rem :: "int \<Rightarrow> int \<Rightarrow> int" where
  "js_rem a b = sgn a * (\<bar>a\<bar> mod \<bar>b\<bar>)"

text \<open>\<^verbatim>\<open>xs[i]\<close> on an array or a string: \<^verbatim>\<open>undefined\<close> (\<open>None\<close>) out of range.\<close>

definition js_index :: "'a list \<Rightarrow> int \<Rightarrow> 'a option" where
  "js_index xs i = (if 0 \<le> i \<and> i < int (length xs) then Some (xs ! nat i) else None)"

section \<open>JavaScript numbers\<close>

text \<open>
  A JavaScript number is an IEEE 754 double. The engine's coordinates, lengths and indices
  are small integers, on which the arithmetic of doubles is exact; they are modelled as
  \<^typ>\<open>int\<close>. The generator is different: \<^verbatim>\<open>seed * 9301\<close> and \<^verbatim>\<open>+ 49297\<close> are rounded
  once the result needs more than 53 bits, and both \<^verbatim>\<open>seed / 233280\<close> and the product
  \<^verbatim>\<open>next() * n\<close> are rounded to the nearest double, ties to even. These roundings are
  modelled.

  A finite double is a pair \<open>(m, t)\<close> of integers standing for \<open>m / 2^t\<close>. Rounding keeps a
  mantissa of 53 bits, \<open>2^52 \<le> \<bar>m\<bar> \<le> 2^53\<close>; the exponent is not bounded, which is
  right as long as no operation overflows or underflows: the engine's values lie between
  \<open>2^-18\<close> and \<open>2^67\<close> in absolute value for seeds below \<open>2^53\<close>.
\<close>

type_synonym double = "int \<times> int"

text \<open>The real number a double stands for.\<close>

definition dbl_val :: "double \<Rightarrow> real" where
  "dbl_val d =
     (if 0 \<le> snd d then real_of_int (fst d) / 2 ^ nat (snd d)
      else real_of_int (fst d) * 2 ^ nat (- snd d))"

text \<open>\<open>scale x t\<close> is \<open>x * 2^t\<close> for \<open>t \<ge> 0\<close> and \<open>x\<close> below.\<close>

definition scale :: "int \<Rightarrow> int \<Rightarrow> int" where
  "scale x t = x * 2 ^ nat t"

text \<open>
  The double nearest to \<open>a / q\<close> for positive integers: with \<open>k\<close> the difference of the
  bit lengths, \<open>a / q\<close> lies between \<open>2^(k-1)\<close> and \<open>2^(k+1)\<close>; the exponent \<open>t\<close> is the
  one that brings \<open>a / q * 2^t\<close> into \<open>[2^52, 2^53)\<close>, and the mantissa is that number
  rounded to the nearest integer, to the even one half-way.
\<close>

definition round_exponent :: "int \<Rightarrow> int \<Rightarrow> int" where
  "round_exponent a q =
     (let k = bitlen a - bitlen q
      in if 2 ^ 53 * scale q (k - 53) \<le> scale a (53 - k) then 52 - k else 53 - k)"

definition round_mantissa :: "int \<Rightarrow> int \<Rightarrow> int" where
  "round_mantissa num den =
     (let m0 = num div den; r = num mod den
      in if den < 2 * r \<or> (den = 2 * r \<and> odd m0) then m0 + 1 else m0)"

definition round_pos :: "int \<Rightarrow> int \<Rightarrow> double" where
  "round_pos a q =
     (let t = round_exponent a q in (round_mantissa (scale a t) (scale q (- t)), t))"

text \<open>The double nearest to \<open>p / q\<close>, for \<open>q > 0\<close>: the result of \<^verbatim>\<open>p / q\<close>.\<close>

definition round_ratio :: "int \<Rightarrow> int \<Rightarrow> double" where
  "round_ratio p q =
     (if p = 0 then (0, 0)
      else if 0 < p then round_pos p q
      else (- fst (round_pos (- p) q), snd (round_pos (- p) q)))"

text \<open>\<^verbatim>\<open>Math.floor\<close> on a double: exact.\<close>

definition dbl_floor :: "double \<Rightarrow> int" where
  "dbl_floor d = (if 0 \<le> snd d then fst d div 2 ^ nat (snd d) else fst d * 2 ^ nat (- snd d))"

text \<open>
  The double nearest to an integer, itself an integer: the result of a sum or a product
  of integer-valued doubles whose exact value is \<open>x\<close>. It is \<open>x\<close> below \<open>2^53\<close>.
\<close>

definition double_of_int :: "int \<Rightarrow> int" where
  "double_of_int x = dbl_floor (round_ratio x 1)"

text \<open>\<^verbatim>\<open>d * n\<close> for a double and an integer below \<open>2^53\<close>: the exact product, rounded.\<close>

definition dbl_times :: "double \<Rightarrow> int \<Rightarrow> double" where
  "dbl_times d n = (fst (round_ratio (fst d * n) 1), snd (round_ratio (fst d * n) 1) + snd d)"

text \<open>An integer seed that a JavaScript number holds exactly (a safe integer).\<close>

definition safe_integer :: "int \<Rightarrow> bool" where
  "safe_integer s = (\<bar>s\<bar> < 2 ^ 53)"

section \<open>The seeded generator: class \<^verbatim>\<open>Random\<close>\<close>

record Random =
  seed :: int

definition new_Random :: "int \<Rightarrow> Random" where
  "new_Random s = \<lparr>seed = s\<rparr>"

text \<open>
  \<^verbatim>\<open>next() { this.seed = (this.seed * 9301 + 49297) % 233280; return this.seed / 233280; }\<close>
  The product and the sum are rounded, \<^verbatim>\<open>%\<close> is exact on doubles, the quotient is rounded.
  The method returns its value together with the updated object.
\<close>

definition Random_next :: "Random \<Rightarrow> double \<times> Random" where
  "Random_next rng =
     (let s = js_rem (double_of_int (double_of_int (seed rng * 9301) + 49297)) 233280
      in (round_ratio s 233280, rng\<lparr>seed := s\<rparr>))"

text \<open>\<^verbatim>\<open>Math.floor(v * n)\<close>, the way every caller turns a draw into an index.\<close>

definition floor_times :: "double \<Rightarrow> int \<Rightarrow> int" where
  "floor_times v n = dbl_floor (dbl_times v n)"

text \<open>The object after \<open>n\<close> calls of \<^verbatim>\<open>next\<close>, and the value the next call returns.\<close>

fun state_after :: "nat \<Rightarrow> Random \<Rightarrow> Random" where
  "state_after 0 rng = rng"
| "state_after (Suc n) rng = snd (Random_next (state_after n rng))"

definition nth_output :: "nat \<Rightarrow> Random \<Rightarrow> double" where
  "nth_output n rng = fst (Random_next (state_after n rng))"

section \<open>\<^verbatim>\<open>shuffleArray\<close>\<close>

text \<open>
  The copy \<^verbatim>\<open>newArr\<close> is a JavaScript array object: its elements, and the properties a
  write at a negative index creates (they are not elements: \<^verbatim>\<open>length\<close>, iteration and
  \<^verbatim>\<open>join\<close> do not see them, a later read at the same index does). An element or a
  property is a value or \<^verbatim>\<open>undefined\<close> (\<open>None\<close>). A write at an index beyond the last
  element grows the array.
\<close>

record 'a jsarray =
  elems :: "'a option list"
  props :: "int \<Rightarrow> 'a option"

definition arr_get :: "'a jsarray \<Rightarrow> int \<Rightarrow> 'a option" where
  "arr_get a k =
     (if 0 \<le> k \<and> k < int (length (elems a)) then elems a ! nat k else props a k)"

definition arr_set :: "'a jsarray \<Rightarrow> int \<Rightarrow> 'a option \<Rightarrow> 'a jsarray" where
  "arr_set a k v =
     (if 0 \<le> k \<and> k < int (length (elems a)) then a\<lparr>elems := (elems a)[nat k := v]\<rparr>
      else if 0 \<le> k
        then a\<lparr>elems := elems a @ replicate (nat k - length (elems a)) None @ [v]\<rparr>
      else a\<lparr>props := (props a)(k := v)\<rparr>)"

text \<open>\<^verbatim>\<open>[newArr[i], newArr[j]] = [newArr[j], newArr[i]]\<close>: both reads, then both writes.\<close>

definition swap :: "'a jsarray \<Rightarrow> int \<Rightarrow> int \<Rightarrow> 'a jsarray" where
  "swap a i j =
     (let vj = arr_get a j; vi = arr_get a i
      in arr_set (arr_set a i vj) j vi)"

text \<open>
  \<^verbatim>\<open>for (let i = newArr.length - 1; i > 0; i--)\<close>: the first argument is \<open>i\<close>; the loop
  ends at \<open>i = 0\<close> (an empty array starts at \<open>-1\<close> and does not enter it either).
\<close>

fun shuffle_loop :: "nat \<Rightarrow> Random \<Rightarrow> 'a jsarray \<Rightarrow> 'a jsarray" where
  "shuffle_loop 0 rng newArr = newArr"
| "shuffle_loop (Suc k) rng newArr =
     (let i = int (Suc k);
          (v, rng') = Random_next rng;
          j = floor_times v (i + 1)
      in shuffle_loop k rng' (swap newArr i j))"

text \<open>
  The argument is typed as an array, so the guard \<^verbatim>\<open>!Array.isArray(array)\<close> is never
  taken. The result is the element list of \<^verbatim>\<open>newArr\<close>.
\<close>

definition shuffleArray :: "'a list \<Rightarrow> int \<Rightarrow> 'a option list" where
  "shuffleArray array s =
     elems (shuffle_loop (length array - 1) (new_Random s)
              \<lparr>elems = map Some array, props = (\<lambda>_. None)\<rparr>)"

text \<open>
  The shuffle in the specification's words: for \<open>i\<close> from the last index down to 1, draw
  \<open>j = floor(next() * (i+1))\<close> and swap the elements \<open>i\<close> and \<open>j\<close> of a plain list.
\<close>

fun fisher_yates :: "nat \<Rightarrow> Random \<Rightarrow> 'a list \<Rightarrow> 'a list" where
  "fisher_yates 0 rng xs = xs"
| "fisher_yates (Suc k) rng xs =
     (let (v, rng') = Random_next rng;
          j = nat (floor_times v (int (Suc k) + 1))
      in fisher_yates k rng' (xs[Suc k := xs ! j, j := xs ! Suc k]))"

section \<open>Words: \<^verbatim>\<open>WordPair\<close>, \<^verbatim>\<open>cleanWord\<close> and the placement order\<close>

record WordPair =
  wp_id :: jsstring
  wp_word :: jsstring
  wp_definition :: jsstring

text \<open>
  \<^verbatim>\<open>cleanWord = (w) => w.toUpperCase().replace(/[^A-Z...]/g, '')\<close> keeps the code units of
  the class \<^verbatim>\<open>A-Z\<close> and of the seven accented capitals U+00D1, U+00C1, U+00C9, U+00CD,
  U+00D3, U+00DA, U+00DC. The built-in \<^verbatim>\<open>toUpperCase\<close> (Unicode's case mapping, which can
  lengthen a string) is a parameter \<open>up\<close> of the model: the general results hold for every
  \<open>up\<close>, and a result about given words assumes what the built-in returns on them.
\<close>

definition allowed :: "nat \<Rightarrow> bool" where
  "allowed c = ((65 \<le> c \<and> c \<le> 90) \<or> c \<in> {209, 193, 201, 205, 211, 218, 220})"

definition cleanWord :: "(jsstring \<Rightarrow> jsstring) \<Rightarrow> jsstring \<Rightarrow> jsstring" where
  "cleanWord up w = filter allowed (up w)"

text \<open>
  \<^verbatim>\<open>[...words].sort((a, b) => b.word.length - a.word.length)\<close>, in both generators:
  a stable sort (ECMAScript 2019) on the length of the raw \<^verbatim>\<open>word\<close>, longest first.
\<close>

definition sortedWords :: "WordPair list \<Rightarrow> WordPair list" where
  "sortedWords words = sort_key (\<lambda>w. - int (length (wp_word w))) words"

section \<open>\<^verbatim>\<open>generateWordSearch\<close>\<close>

text \<open>
  A cell of the word-search grid holds a string (\<^verbatim>\<open>''\<close> while empty) or, once the fill
  pass has read the alphabet out of range, \<^verbatim>\<open>undefined\<close> (\<open>None\<close>).
\<close>

type_synonym wsgrid = "jsstring option list list"

record PlacedWordSearchEntry =
  ws_word :: jsstring
  ws_x :: int
  ws_y :: int
  ws_dx :: int
  ws_dy :: int

record WordSearch =
  ws_grid :: wsgrid
  ws_placedWords :: "PlacedWordSearchEntry list"

definition directions :: "(int \<times> int) list" where
  \<comment> \<open>the pairs \<open>(dx, dy)\<close>\<close>
  "directions = [(1, 0), (0, 1), (1, 1), (1, - 1), (- 1, 0), (0, - 1), (- 1, - 1), (- 1, 1)]"

definition alphabet :: jsstring where
  "alphabet = js ''ABCDEFGHIJKLMNOPQRSTUVWXYZ''"

text \<open>
  The collision check \<^verbatim>\<open>for (let i = 0; i < term.length; i++)\<close> with its \<^verbatim>\<open>break\<close>; the last
  argument lists the indices still to visit. Reading a row that does not exist throws.
\<close>

fun fits_loop :: "wsgrid \<Rightarrow> jsstring \<Rightarrow> int \<Rightarrow> int \<Rightarrow> int \<Rightarrow> int \<Rightarrow> nat list \<Rightarrow> js_error + bool" where
  "fits_loop grid term startX startY dx dy [] = Inr True"
| "fits_loop grid term startX startY dx dy (i # rest) =
     (case js_index grid (startY + int i * dy) of
        None \<Rightarrow> Inl TypeError
      | Some row \<Rightarrow>
          (let charAtGrid = (case js_index row (startX + int i * dx) of None \<Rightarrow> None | Some c \<Rightarrow> c)
           in if charAtGrid \<noteq> Some [] \<and> charAtGrid \<noteq> Some [term ! i] then Inr False
              else fits_loop grid term startX startY dx dy rest))"

text \<open>
  \<^verbatim>\<open>grid[cy][cx] = v\<close>. The placement writes only after \<open>fits_loop\<close> has read every
  cell of the path inside the grid (lemma \<open>fits_loop_cells\<close> below), so the write is
  modelled inside the grid only.
\<close>

definition set_cell :: "wsgrid \<Rightarrow> int \<Rightarrow> int \<Rightarrow> jsstring option \<Rightarrow> wsgrid" where
  "set_cell grid cy cx v =
     (if 0 \<le> cy \<and> cy < int (length grid) \<and> 0 \<le> cx \<and> cx < int (length (grid ! nat cy))
      then grid[nat cy := (grid ! nat cy)[nat cx := v]] else grid)"

fun write_loop :: "wsgrid \<Rightarrow> jsstring \<Rightarrow> int \<Rightarrow> int \<Rightarrow> int \<Rightarrow> int \<Rightarrow> nat list \<Rightarrow> wsgrid" where
  "write_loop grid term startX startY dx dy [] = grid"
| "write_loop grid term startX startY dx dy (i # rest) =
     write_loop (set_cell grid (startY + int i * dy) (startX + int i * dx) (Some [term ! i]))
       term startX startY dx dy rest"

text \<open>
  One turn of \<^verbatim>\<open>while (!placed && attempts < 100)\<close>: the three draws come first;
  \<^verbatim>\<open>dir.dx\<close> throws when the direction index is out of range. The result is the
  generator and, when the word was placed, the new grid and the entry.
\<close>

definition attempt ::
  "jsstring \<Rightarrow> int \<Rightarrow> Random \<Rightarrow> wsgrid
    \<Rightarrow> js_error + (Random \<times> (wsgrid \<times> PlacedWordSearchEntry) option)" where
  "attempt term sz rng grid =
     (let (v1, rng1) = Random_next rng;
          dir = js_index directions (floor_times v1 (int (length directions)));
          (v2, rng2) = Random_next rng1;
          startX = floor_times v2 sz;
          (v3, rng3) = Random_next rng2;
          startY = floor_times v3 sz
      in case dir of
           None \<Rightarrow> Inl TypeError
         | Some (dx, dy) \<Rightarrow>
             (let endX = startX + (int (length term) - 1) * dx;
                  endY = startY + (int (length term) - 1) * dy
              in if 0 \<le> endX \<and> endX < sz \<and> 0 \<le> endY \<and> endY < sz
                 then (case fits_loop grid term startX startY dx dy [0..<length term] of
                         Inl e \<Rightarrow> Inl e
                       | Inr True \<Rightarrow>
                           Inr (rng3,
                                Some (write_loop grid term startX startY dx dy [0..<length term],
                                      \<lparr>ws_word = term, ws_x = startX, ws_y = startY,
                                       ws_dx = dx, ws_dy = dy\<rparr>))
                       | Inr False \<Rightarrow> Inr (rng3, None))
                 else Inr (rng3, None)))"

text \<open>
  The loop: the first argument counts the turns left, \<open>100 - attempts\<close>; a placed word
  ends it.
\<close>

fun place_attempts ::
  "nat \<Rightarrow> jsstring \<Rightarrow> int \<Rightarrow> Random \<Rightarrow> wsgrid \<Rightarrow> PlacedWordSearchEntry list
    \<Rightarrow> js_error + (Random \<times> wsgrid \<times> PlacedWordSearchEntry list)" where
  "place_attempts 0 term sz rng grid placedWords = Inr (rng, grid, placedWords)"
| "place_attempts (Suc n) term sz rng grid placedWords =
     (case attempt term sz rng grid of
        Inl e \<Rightarrow> Inl e
      | Inr (rng', Some (grid', entry)) \<Rightarrow> Inr (rng', grid', placedWords @ [entry])
      | Inr (rng', None) \<Rightarrow> place_attempts n term sz rng' grid placedWords)"

text \<open>\<^verbatim>\<open>for (const item of sortedWords)\<close>.\<close>

fun place_words ::
  "(jsstring \<Rightarrow> jsstring) \<Rightarrow> WordPair list \<Rightarrow> int \<Rightarrow> Random \<Rightarrow> wsgrid
    \<Rightarrow> PlacedWordSearchEntry list
    \<Rightarrow> js_error + (Random \<times> wsgrid \<times> PlacedWordSearchEntry list)" where
  "place_words up [] sz rng grid placedWords = Inr (rng, grid, placedWords)"
| "place_words up (item # rest) sz rng grid placedWords =
     (case place_attempts 100 (cleanWord up (wp_word item)) sz rng grid placedWords of
        Inl e \<Rightarrow> Inl e
      | Inr (rng', grid', placedWords') \<Rightarrow> place_words up rest sz rng' grid' placedWords')"

text \<open>
  The fill pass visits the rows top to bottom and each row left to right; the grid has
  \<open>size\<close> rows of \<open>size\<close> cells, so these are the index loops of the source.
\<close>

fun fill_row :: "Random \<Rightarrow> jsstring option list \<Rightarrow> Random \<times> jsstring option list" where
  "fill_row rng [] = (rng, [])"
| "fill_row rng (c # cs) =
     (if c = Some []
      then (let (v, rng1) = Random_next rng;
                letter = map_option (\<lambda>u. [u])
                           (js_index alphabet (floor_times v (int (length alphabet))));
                (rng2, cs') = fill_row rng1 cs
            in (rng2, letter # cs'))
      else (let (rng2, cs') = fill_row rng cs in (rng2, c # cs')))"

fun fill_grid :: "Random \<Rightarrow> wsgrid \<Rightarrow> Random \<times> wsgrid" where
  "fill_grid rng [] = (rng, [])"
| "fill_grid rng (row # rows) =
     (let (rng1, row') = fill_row rng row;
          (rng2, rows') = fill_grid rng1 rows
      in (rng2, row' # rows'))"

text \<open>
  \<^verbatim>\<open>Array(size)\<close> throws a RangeError unless \<open>0 \<le> size < 2^32\<close>.
\<close>

definition generateWordSearch ::
  "(jsstring \<Rightarrow> jsstring) \<Rightarrow> WordPair list \<Rightarrow> int \<Rightarrow> int \<Rightarrow> js_error + WordSearch" where
  "generateWordSearch up words sz s =
     (if sz < 0 \<or> 2 ^ 32 \<le> sz then Inl RangeError
      else case place_words up (sortedWords words) sz (new_Random s)
                  (replicate (nat sz) (replicate (nat sz) (Some []))) [] of
             Inl e \<Rightarrow> Inl e
           | Inr (rng, grid, placedWords) \<Rightarrow>
               Inr \<lparr>ws_grid = snd (fill_grid rng grid), ws_placedWords = placedWords\<rparr>)"

section \<open>\<^verbatim>\<open>generateCrossword\<close>\<close>

record GridCell =
  cell_char :: "jsstring option"
  cell_x :: int
  cell_y :: int

type_synonym cwgrid = "GridCell list list"

datatype direction = across | down

text \<open>An entry of \<^verbatim>\<open>placedWords\<close> while placing, and with its clue number at the end.\<close>

record PlacedEntry =
  cw_word :: jsstring
  cw_clue :: jsstring
  cw_x :: int
  cw_y :: int
  cw_direction :: direction

record NumberedEntry = PlacedEntry +
  cw_number :: "nat option"

record CrosswordLayout =
  cl_grid :: cwgrid
  cl_placedWords :: "NumberedEntry list"
  cl_width :: int
  cl_height :: int

definition gridSize :: int where
  "gridSize = 40"

definition center :: int where
  "center = gridSize div 2"

definition emptyGrid :: cwgrid where
  "emptyGrid =
     map (\<lambda>y. map (\<lambda>x. \<lparr>cell_char = None, cell_x = int x, cell_y = int y\<rparr>) [0..<nat gridSize])
       [0..<nat gridSize]"

text \<open>
  \<^verbatim>\<open>grid[cy]?.[cx]?.char\<close>, and \<^verbatim>\<open>grid[cy][cx].char\<close> where the source has checked the
  indices: \<open>None\<close> stands for \<^verbatim>\<open>null\<close> and for \<^verbatim>\<open>undefined\<close>, which every test of the
  source treats alike.
\<close>

definition charAt :: "cwgrid \<Rightarrow> int \<Rightarrow> int \<Rightarrow> jsstring option" where
  "charAt grid cy cx =
     (case js_index grid cy of
        None \<Rightarrow> None
      | Some row \<Rightarrow> (case js_index row cx of None \<Rightarrow> None | Some cell \<Rightarrow> cell_char cell))"

text \<open>A value used as a condition: \<^verbatim>\<open>null\<close>, \<^verbatim>\<open>undefined\<close> and \<^verbatim>\<open>''\<close> are falsy.\<close>

definition truthy :: "jsstring option \<Rightarrow> bool" where
  "truthy c = (case c of None \<Rightarrow> False | Some str \<Rightarrow> str \<noteq> [])"

text \<open>\<^verbatim>\<open>grid[cy][cx].char = c\<close> throws when the row or the cell does not exist.\<close>

definition setChar :: "cwgrid \<Rightarrow> int \<Rightarrow> int \<Rightarrow> jsstring \<Rightarrow> js_error + cwgrid" where
  "setChar grid cy cx c =
     (case js_index grid cy of
        None \<Rightarrow> Inl TypeError
      | Some row \<Rightarrow>
          (case js_index row cx of
             None \<Rightarrow> Inl TypeError
           | Some cell \<Rightarrow> Inr (grid[nat cy := row[nat cx := cell\<lparr>cell_char := Some c\<rparr>]])))"

text \<open>The cell of letter \<open>k\<close> of a word that starts at \<open>(startX, startY)\<close>, as \<open>(cx, cy)\<close>.\<close>

definition cellOf :: "direction \<Rightarrow> int \<Rightarrow> int \<Rightarrow> nat \<Rightarrow> int \<times> int" where
  "cellOf d startX startY k =
     (if d = across then startX + int k else startX, if d = down then startY + int k else startY)"

text \<open>
  The two writing loops: \<^verbatim>\<open>grid[center][startX + i].char = term[i]\<close> for the first word
  (direction across, row \<open>center\<close>) and \<^verbatim>\<open>grid[cy][cx].char = term[k]\<close> for the others.
\<close>

fun writeWord :: "cwgrid \<Rightarrow> jsstring \<Rightarrow> direction \<Rightarrow> int \<Rightarrow> int \<Rightarrow> nat list \<Rightarrow> js_error + cwgrid" where
  "writeWord grid term d startX startY [] = Inr grid"
| "writeWord grid term d startX startY (k # rest) =
     (let (cx, cy) = cellOf d startX startY k
      in case setChar grid cy cx [term ! k] of
           Inl e \<Rightarrow> Inl e
         | Inr grid' \<Rightarrow> writeWord grid' term d startX startY rest)"

text \<open>
  The validation loop \<^verbatim>\<open>for (let k = 0; k < term.length; k++)\<close>; each \<^verbatim>\<open>fits = false; break\<close>
  is the result \<open>False\<close>.
\<close>

fun validate :: "cwgrid \<Rightarrow> jsstring \<Rightarrow> direction \<Rightarrow> int \<Rightarrow> int \<Rightarrow> nat list \<Rightarrow> bool" where
  "validate grid term d startX startY [] = True"
| "validate grid term d startX startY (k # rest) =
     (let (cx, cy) = cellOf d startX startY k
      in if cx < 0 \<or> cx \<ge> gridSize \<or> cy < 0 \<or> cy \<ge> gridSize then False
         else let cellchar = charAt grid cy cx
         in if cellchar \<noteq> None \<and> cellchar \<noteq> Some [term ! k] then False
            else if cellchar = None \<and>
                    (truthy (if d = across then charAt grid (cy - 1) cx else charAt grid cy (cx - 1))
                     \<or> truthy (if d = across then charAt grid (cy + 1) cx else charAt grid cy (cx + 1)))
              then False
            else if k = 0 \<and>
                    truthy (if d = across then charAt grid cy (cx - 1) else charAt grid (cy - 1) cx)
              then False
            else if int k = int (length term) - 1 \<and>
                    truthy (if d = across then charAt grid cy (cx + 1) else charAt grid (cy + 1) cx)
              then False
            else validate grid term d startX startY rest)"

text \<open>\<^verbatim>\<open>term.includes(s)\<close>: \<open>s\<close> occurs in \<open>term\<close> as a contiguous substring.\<close>

definition js_includes :: "jsstring \<Rightarrow> jsstring \<Rightarrow> bool" where
  "js_includes term str = list_ex (\<lambda>i. take (length str) (drop i term) = str) [0..<Suc (length term)]"

text \<open>The filled cells \<open>(x, y)\<close> in row-major order.\<close>

definition scanOrder :: "cwgrid \<Rightarrow> (int \<times> int) list" where
  "scanOrder grid =
     concat (map (\<lambda>y. concat (map (\<lambda>x. if truthy (charAt grid (int y) (int x))
                                          then [(int x, int y)] else [])
                                   [0..<nat gridSize]))
               [0..<nat gridSize])"

text \<open>
  \<^verbatim>\<open>for (const charIdx of possibleIndices)\<close>: the direction is inferred anew for every
  index, drawing from the generator when the cell has no neighbour at all. The result is
  the generator and, when the word was placed, the new grid and the entry.
\<close>

fun tryIndices ::
  "cwgrid \<Rightarrow> Random \<Rightarrow> jsstring \<Rightarrow> jsstring \<Rightarrow> int \<Rightarrow> int \<Rightarrow> nat list
    \<Rightarrow> js_error + (Random \<times> (cwgrid \<times> PlacedEntry) option)" where
  "tryIndices grid rng term clue x y [] = Inr (rng, None)"
| "tryIndices grid rng term clue x y (charIdx # rest) =
     (let isOccupiedHorizontally = (charAt grid y (x + 1) \<noteq> None \<or> charAt grid y (x - 1) \<noteq> None);
          isOccupiedVertically = (charAt grid (y + 1) x \<noteq> None \<or> charAt grid (y - 1) x \<noteq> None);
          (dir, rng') =
             (if isOccupiedHorizontally \<and> \<not> isOccupiedVertically then (Some down, rng)
              else if isOccupiedVertically \<and> \<not> isOccupiedHorizontally then (Some across, rng)
              else if \<not> isOccupiedHorizontally \<and> \<not> isOccupiedVertically
                then (let (v, r) = Random_next rng in (Some (if 1 / 2 < dbl_val v then across else down), r))
              else (None, rng))
      in case dir of
           None \<Rightarrow> tryIndices grid rng' term clue x y rest
         | Some d \<Rightarrow>
             (let startX = (if d = across then x - int charIdx else x);
                  startY = (if d = down then y - int charIdx else y)
              in if validate grid term d startX startY [0..<length term]
                 then (case writeWord grid term d startX startY [0..<length term] of
                         Inl e \<Rightarrow> Inl e
                       | Inr grid' \<Rightarrow>
                           Inr (rng', Some (grid', \<lparr>cw_word = term, cw_clue = clue, cw_x = startX,
                                                     cw_y = startY, cw_direction = d\<rparr>)))
                 else tryIndices grid rng' term clue x y rest))"

text \<open>
  \<^verbatim>\<open>for (const {x, y} of scanOrder)\<close>, left as soon as the word is placed. A scanned cell
  is filled, so \<^verbatim>\<open>cellChar\<close> is a string; on \<^verbatim>\<open>null\<close> no index of the word would match.
\<close>

fun scanLoop ::
  "cwgrid \<Rightarrow> Random \<Rightarrow> jsstring \<Rightarrow> jsstring \<Rightarrow> (int \<times> int) list
    \<Rightarrow> js_error + (Random \<times> (cwgrid \<times> PlacedEntry) option)" where
  "scanLoop grid rng term clue [] = Inr (rng, None)"
| "scanLoop grid rng term clue ((x, y) # rest) =
     (let cellChar = charAt grid y x
      in if (case cellChar of None \<Rightarrow> False | Some str \<Rightarrow> js_includes term str)
         then (case tryIndices grid rng term clue x y
                      (filter (\<lambda>k. Some [term ! k] = cellChar) [0..<length term]) of
                 Inl e \<Rightarrow> Inl e
               | Inr (rng', Some p) \<Rightarrow> Inr (rng', Some p)
               | Inr (rng', None) \<Rightarrow> scanLoop grid rng' term clue rest)
         else scanLoop grid rng term clue rest)"

text \<open>\<^verbatim>\<open>for (let i = 1; i < sortedWords.length; i++)\<close>.\<close>

fun placeRest ::
  "(jsstring \<Rightarrow> jsstring) \<Rightarrow> WordPair list \<Rightarrow> Random \<Rightarrow> cwgrid \<Rightarrow> PlacedEntry list
    \<Rightarrow> js_error + (cwgrid \<times> PlacedEntry list)" where
  "placeRest up [] rng grid placedWords = Inr (grid, placedWords)"
| "placeRest up (currentPair # rest) rng grid placedWords =
     (case scanLoop grid rng (cleanWord up (wp_word currentPair)) (wp_definition currentPair)
             (scanOrder grid) of
        Inl e \<Rightarrow> Inl e
      | Inr (rng', None) \<Rightarrow> placeRest up rest rng' grid placedWords
      | Inr (rng', Some (grid', entry)) \<Rightarrow> placeRest up rest rng' grid' (placedWords @ [entry]))"

text \<open>The placement phase: the first word across the centre, then the others.\<close>

definition placeAll ::
  "(jsstring \<Rightarrow> jsstring) \<Rightarrow> WordPair list \<Rightarrow> int \<Rightarrow> js_error + (cwgrid \<times> PlacedEntry list)" where
  "placeAll up words s =
     (case sortedWords words of
        [] \<Rightarrow> Inr (emptyGrid, [])
      | first # rest \<Rightarrow>
          (let term = cleanWord up (wp_word first);
               startX = center - int (length term) div 2
           in case writeWord emptyGrid term across startX center [0..<length term] of
                Inl e \<Rightarrow> Inl e
              | Inr grid \<Rightarrow>
                  placeRest up rest (new_Random s) grid
                    [\<lparr>cw_word = term, cw_clue = wp_definition first, cw_x = startX,
                      cw_y = center, cw_direction = across\<rparr>]))"

text \<open>The bounding box \<open>(minX, maxX, minY, maxY)\<close> of \<^verbatim>\<open>placedWords.forEach\<close>.\<close>

definition bounds :: "PlacedEntry list \<Rightarrow> int \<times> int \<times> int \<times> int" where
  "bounds placedWords =
     fold (\<lambda>w (minX, maxX, minY, maxY).
             (min minX (cw_x w),
              max maxX (if cw_direction w = across then cw_x w + int (length (cw_word w))
                        else cw_x w + 1),
              min minY (cw_y w),
              max maxY (if cw_direction w = down then cw_y w + int (length (cw_word w))
                        else cw_y w + 1)))
       placedWords (gridSize, 0, gridSize, 0)"

text \<open>
  The set \<^verbatim>\<open>starts\<close> of keys \<^verbatim>\<open>`${w.x},${w.y}`\<close> keeps its keys in the order of their first
  insertion. A key and the pair of integers it is written from determine each other, so
  the keys are the pairs \<open>(x, y)\<close>.
\<close>

definition set_add :: "'a list \<Rightarrow> 'a \<Rightarrow> 'a list" where
  "set_add keys k = (if k \<in> set keys then keys else keys @ [k])"

text \<open>
  Cropping and numbering. \<^verbatim>\<open>Array(height)\<close> and, once per row, \<^verbatim>\<open>Array(width)\<close> throw a
  RangeError for a negative length. The comparator \<^verbatim>\<open>a.y - b.y || a.x - b.x\<close> orders by
  \<open>(y, x)\<close>; \<^verbatim>\<open>numberMap\<close> is the list of the sorted keys paired with \<open>idx + 1\<close>.
\<close>

definition crop :: "cwgrid \<Rightarrow> PlacedEntry list \<Rightarrow> js_error + CrosswordLayout" where
  "crop grid placedWords =
     (let (minX0, maxX, minY0, maxY) = bounds placedWords;
          minX = max 0 (minX0 - 1);
          minY = max 0 (minY0 - 1);
          width = (maxX - minX) + 2;
          height = (maxY - minY) + 2
      in if height < 0 \<or> (0 < height \<and> width < 0) then Inl RangeError
         else
           (let croppedGrid =
                  map (\<lambda>y. map (\<lambda>x.
                         (let globalY = int y + minY; globalX = int x + minX
                          in if globalY < gridSize \<and> globalX < gridSize
                             then \<lparr>cell_char = charAt grid globalY globalX,
                                   cell_x = int x, cell_y = int y\<rparr>
                             else \<lparr>cell_char = None, cell_x = int x, cell_y = int y\<rparr>))
                       [0..<nat width])
                    [0..<nat height];
                shiftedWords = map (\<lambda>w. w\<lparr>cw_x := cw_x w - minX, cw_y := cw_y w - minY\<rparr>) placedWords;
                starts = fold (\<lambda>w keys. set_add keys (cw_x w, cw_y w)) shiftedWords [];
                sortedStarts = sort_key (\<lambda>(x, y). (y, x)) starts;
                numberMap = zip sortedStarts [1..<Suc (length sortedStarts)];
                finalWords =
                  map (\<lambda>w. \<lparr>cw_word = cw_word w, cw_clue = cw_clue w, cw_x = cw_x w, cw_y = cw_y w,
                             cw_direction = cw_direction w,
                             cw_number = map_of numberMap (cw_x w, cw_y w)\<rparr>) shiftedWords
            in Inr \<lparr>cl_grid = croppedGrid, cl_placedWords = finalWords,
                    cl_width = width, cl_height = height\<rparr>))"

definition generateCrossword ::
  "(jsstring \<Rightarrow> jsstring) \<Rightarrow> WordPair list \<Rightarrow> int \<Rightarrow> js_error + CrosswordLayout" where
  "generateCrossword up words s =
     (case placeAll up words s of
        Inl e \<Rightarrow> Inl e
      | Inr (grid, placedWords) \<Rightarrow> crop grid placedWords)"

section \<open>The properties stated about the results\<close>

text \<open>
  The predicates below are written from the statements to verify, not from the source.

  \<^verbatim>\<open>grid[cy][cx]\<close> of a word-search grid, \<open>None\<close> outside of it.
\<close>

definition ws_at :: "wsgrid \<Rightarrow> int \<Rightarrow> int \<Rightarrow> jsstring option" where
  "ws_at grid cy cx =
     (case js_index grid cy of
        None \<Rightarrow> None
      | Some row \<Rightarrow> (case js_index row cx of None \<Rightarrow> None | Some c \<Rightarrow> c))"

text \<open>A grid of \<open>sz\<close> rows of \<open>sz\<close> cells.\<close>

definition square :: "wsgrid \<Rightarrow> int \<Rightarrow> bool" where
  "square grid sz = (length grid = nat sz \<and> list_all (\<lambda>row. length row = nat sz) grid)"

text \<open>
  Word-search legality of an entry: for each \<open>k\<close> below the length of the word, the cell
  \<open>(x + k dx, y + k dy)\<close> lies within \<open>[0, size)\<close> in both coordinates and holds the
  \<open>k\<close>-th letter of the word.
\<close>

definition ws_legal :: "wsgrid \<Rightarrow> int \<Rightarrow> PlacedWordSearchEntry \<Rightarrow> bool" where
  "ws_legal grid sz e =
     list_all (\<lambda>k. let cx = ws_x e + int k * ws_dx e; cy = ws_y e + int k * ws_dy e
                    in 0 \<le> cx \<and> cx < sz \<and> 0 \<le> cy \<and> cy < sz
                       \<and> ws_at grid cy cx = Some [ws_word e ! k])
       [0..<length (ws_word e)]"

text \<open>
  A cell that holds a single upper-case letter: a string of one code unit, one of \<open>A-Z\<close> or
  of the accented capitals that \<^const>\<open>cleanWord\<close> keeps.
\<close>

definition letter_cell :: "jsstring option \<Rightarrow> bool" where
  "letter_cell c = (case c of Some [u] \<Rightarrow> allowed u | _ \<Rightarrow> False)"

text \<open>While placing, a cell is empty or holds a letter.\<close>

definition cells_ok :: "wsgrid \<Rightarrow> bool" where
  "cells_ok grid = list_all (list_all (\<lambda>c. c = Some [] \<or> letter_cell c)) grid"

text \<open>
  What the fill pass does to a cell: an empty cell gets a letter when the generator's state
  is not negative, any other cell is kept.
\<close>

definition fill_rel :: "bool \<Rightarrow> jsstring option \<Rightarrow> jsstring option \<Rightarrow> bool" where
  "fill_rel nonneg c c' = (if c = Some [] then (nonneg \<longrightarrow> letter_cell c') else c' = c)"

section \<open>Properties of the rounding\<close>

text \<open>\<open>p2 t\<close> is \<open>2^t\<close> for an integer \<open>t\<close> of either sign.\<close>

definition p2 :: "int \<Rightarrow> real" where
  "p2 t = 2 powr real_of_int t"

lemma p2_pos: "0 < p2 t"
  by (simp add: p2_def)

lemma p2_add: "p2 (a + b) = p2 a * p2 b"
  by (simp add: p2_def powr_add)

lemma p2_nat: "0 \<le> t \<Longrightarrow> p2 t = 2 ^ nat t"
  by (simp add: p2_def powr_realpow [symmetric])

lemma p2_neg: "p2 (- t) = 1 / p2 t"
  by (simp add: p2_def powr_minus_divide)

lemma p2_nonpos: "t \<le> 0 \<Longrightarrow> p2 t = 1 / 2 ^ nat (- t)"
  using p2_nat [of "- t"] p2_neg [of "- t"] by simp

lemma p2_numeral: "p2 (numeral k) = 2 ^ numeral k" "p2 0 = 1"
  by (simp_all add: p2_def)

lemma dbl_val_p2: "dbl_val (m, t) = real_of_int m / p2 t"
proof (cases "0 \<le> t")
  case True
  then show ?thesis by (simp add: dbl_val_def p2_nat)
next
  case False
  then show ?thesis by (simp add: dbl_val_def p2_nonpos)
qed

lemma scale_ratio:
  assumes "0 < q"
  shows "real_of_int (scale a t) / real_of_int (scale q (- t)) = real_of_int a / real_of_int q * p2 t"
    and "0 < scale q (- t)"
proof -
  show "0 < scale q (- t)" using assms by (simp add: scale_def)
  show "real_of_int (scale a t) / real_of_int (scale q (- t)) = real_of_int a / real_of_int q * p2 t"
  proof (cases "0 \<le> t")
    case True
    then show ?thesis by (simp add: scale_def p2_nat)
  next
    case False
    then show ?thesis by (simp add: scale_def p2_nonpos)
  qed
qed


lemma round_pos_props:
  assumes "0 < a" "0 < q" "round_pos a q = (m, t)"
  shows "2 ^ 52 \<le> m"
    and "\<bar>real_of_int m - real_of_int a / real_of_int q * p2 t\<bar> \<le> 1 / 2"
    and "2 ^ 52 \<le> real_of_int a / real_of_int q * p2 t"
proof -
  define x where "x = real_of_int a / real_of_int q"
  define k where "k = bitlen a - bitlen q"
  define num where "num = scale a t"
  define den where "den = scale q (- t)"
  define m0 where "m0 = num div den"
  define r where "r = num mod den"
  have te: "t = round_exponent a q" and me: "m = round_mantissa (scale a t) (scale q (- t))"
    using assms(3) by (auto simp: round_pos_def Let_def)
  have t: "t = (if 2 ^ 53 * scale q (k - 53) \<le> scale a (53 - k) then 52 - k else 53 - k)"
    unfolding te round_exponent_def Let_def k_def ..
  have m: "m = (if den < 2 * r \<or> (den = 2 * r \<and> odd m0) then m0 + 1 else m0)"
    unfolding me round_mantissa_def Let_def num_def den_def m0_def r_def ..
  have den: "0 < den"
    unfolding den_def by (rule scale_ratio(2) [OF assms(2)])
  have M: "real_of_int num / real_of_int den = x * p2 t"
    unfolding num_def den_def x_def by (rule scale_ratio(1) [OF assms(2)])
  have xpos: "0 < x"
    using assms by (simp add: x_def)
  show lower: "2 ^ 52 \<le> real_of_int a / real_of_int q * p2 t"
  proof (cases "2 ^ 53 * scale q (k - 53) \<le> scale a (53 - k)")
    case True
    then have tk: "t = 52 - k" by (simp add: t)
    have d: "0 < scale q (- (53 - k))"
      by (rule scale_ratio(2) [OF assms(2)])
    from True have "2 ^ 53 * scale q (- (53 - k)) \<le> scale a (53 - k)"
      by simp
    then have "real_of_int (2 ^ 53 * scale q (- (53 - k))) \<le> real_of_int (scale a (53 - k))"
      by (simp only: of_int_le_iff)
    then have "2 ^ 53 \<le> real_of_int (scale a (53 - k)) / real_of_int (scale q (- (53 - k)))"
      using d by (simp add: pos_le_divide_eq)
    then have "2 ^ 53 \<le> x * p2 (53 - k)"
      unfolding x_def by (simp only: scale_ratio(1) [OF assms(2)])
    moreover have "p2 (53 - k) = p2 (52 - k) * 2"
      using p2_add [of "52 - k" 1] by (simp add: p2_def)
    ultimately have "2 ^ 53 \<le> x * p2 (52 - k) * 2"
      by (simp add: mult.assoc)
    then have "2 ^ 52 \<le> x * p2 (52 - k)"
      by simp
    then show ?thesis
      by (simp only: tk x_def)
  next
    case False
    then have tk: "t = 53 - k" by (simp add: t)
    have ba: "1 \<le> bitlen a"
      using assms(1) bitlen_eq_zero_iff [of a] bitlen_nonneg [of a] by linarith
    have "2 ^ nat (bitlen a - 1) \<le> a" "q < 2 ^ nat (bitlen q)"
      using bitlen_bounds [OF assms(1)] bitlen_bounds [OF assms(2)] by simp_all
    then have "real_of_int (2 ^ nat (bitlen a - 1)) \<le> real_of_int a"
      "real_of_int q < real_of_int (2 ^ nat (bitlen q))"
      by (simp_all only: of_int_le_iff of_int_less_iff)
    then have a: "p2 (bitlen a - 1) \<le> real_of_int a" and q: "real_of_int q < p2 (bitlen q)"
      using ba bitlen_nonneg [of q] by (simp_all add: p2_nat)
    have "p2 (bitlen a - 1) / p2 (bitlen q) \<le> real_of_int a / p2 (bitlen q)"
      using a p2_pos [of "bitlen q"] by (simp add: divide_right_mono)
    also have "\<dots> \<le> x"
      unfolding x_def using q assms by (intro divide_left_mono) (simp_all add: p2_pos)
    finally have "p2 (bitlen a - 1) / p2 (bitlen q) * p2 (53 - k) \<le> x * p2 (53 - k)"
      using p2_pos [of "53 - k"] by (intro mult_right_mono) simp_all
    moreover have "p2 (bitlen a - 1) / p2 (bitlen q) * p2 (53 - k) = p2 52"
      using p2_add [of "bitlen a - 1 - bitlen q" "53 - k"] p2_add [of "bitlen a - 1" "- bitlen q"]
      by (simp add: k_def p2_neg)
    ultimately show ?thesis
      by (simp add: tk x_def p2_numeral)
  qed
  have split: "num = den * m0 + r" "0 \<le> r" "r < den"
    using den by (simp_all add: m0_def r_def)
  have Mr: "x * p2 t = real_of_int m0 + real_of_int r / real_of_int den"
  proof -
    have "real_of_int num = real_of_int den * real_of_int m0 + real_of_int r"
      using split(1) by (metis of_int_add of_int_mult)
    then show ?thesis
      unfolding M [symmetric] using den by (simp add: field_simps)
  qed
  have frac: "0 \<le> real_of_int r / real_of_int den" "real_of_int r / real_of_int den < 1"
    using split den by simp_all
  show "\<bar>real_of_int m - real_of_int a / real_of_int q * p2 t\<bar> \<le> 1 / 2"
  proof (cases "den < 2 * r \<or> (den = 2 * r \<and> odd m0)")
    case True
    then have "den \<le> 2 * r" by auto
    then have "real_of_int den \<le> 2 * real_of_int r"
      by (metis of_int_le_iff of_int_mult of_int_numeral)
    then have "1 / 2 \<le> real_of_int r / real_of_int den"
      using den by (simp add: pos_le_divide_eq)
    with True frac show ?thesis
      unfolding x_def [symmetric] Mr by (simp add: m)
  next
    case False
    then have "2 * r \<le> den" by auto
    then have "2 * real_of_int r \<le> real_of_int den"
      by (metis of_int_le_iff of_int_mult of_int_numeral)
    then have "real_of_int r / real_of_int den \<le> 1 / 2"
      using den by (simp add: pos_divide_le_eq)
    with False frac show ?thesis
      unfolding x_def [symmetric] Mr by (simp add: m)
  qed
  have "2 ^ 52 \<le> real_of_int m0 + real_of_int r / real_of_int den"
    using lower unfolding x_def [symmetric] Mr .
  with frac have "(2 ^ 52 :: real) < real_of_int m0 + 1"
    by linarith
  then have "real_of_int (2 ^ 52) < real_of_int (m0 + 1)"
    by simp
  then have "2 ^ 52 < m0 + 1"
    by (simp only: of_int_less_iff)
  then show "2 ^ 52 \<le> m"
    by (simp add: m)
qed


lemma round_pos_error:
  assumes "0 < a" "0 < q"
  shows "0 < fst (round_pos a q)"
    and "\<bar>dbl_val (round_pos a q) - real_of_int a / real_of_int q\<bar>
           \<le> real_of_int a / real_of_int q / 2 ^ 53"
proof -
  obtain m t where mt: "round_pos a q = (m, t)"
    by (cases "round_pos a q")
  note p = round_pos_props [OF assms mt]
  define x where "x = real_of_int a / real_of_int q"
  from p(1) show "0 < fst (round_pos a q)"
    by (simp add: mt)
  have "\<bar>real_of_int m - x * p2 t\<bar> \<le> x * p2 t / 2 ^ 53"
    using p(2,3) unfolding x_def [symmetric] by simp
  then have "\<bar>real_of_int m - x * p2 t\<bar> / p2 t \<le> x * p2 t / 2 ^ 53 / p2 t"
    using p2_pos [of t] by (intro divide_right_mono) simp_all
  moreover have "\<bar>real_of_int m - x * p2 t\<bar> / p2 t = \<bar>real_of_int m / p2 t - x\<bar>"
  proof -
    have "\<bar>real_of_int m - x * p2 t\<bar> / p2 t = \<bar>(real_of_int m - x * p2 t) / p2 t\<bar>"
      using p2_pos [of t] by (simp add: abs_divide)
    also have "(real_of_int m - x * p2 t) / p2 t = real_of_int m / p2 t - x"
      using p2_pos [of t] by (simp add: diff_divide_distrib)
    finally show ?thesis .
  qed
  moreover have "x * p2 t / 2 ^ 53 / p2 t = x / 2 ^ 53"
    using p2_pos [of t] by simp
  ultimately show "\<bar>dbl_val (round_pos a q) - real_of_int a / real_of_int q\<bar>
           \<le> real_of_int a / real_of_int q / 2 ^ 53"
    by (simp add: mt dbl_val_p2 x_def)
qed

lemma round_ratio_nonneg:
  assumes "0 \<le> p" "0 < q"
  shows "0 \<le> fst (round_ratio p q)"
    and "0 \<le> dbl_val (round_ratio p q)"
    and "dbl_val (round_ratio p q)
           \<le> real_of_int p / real_of_int q + real_of_int p / real_of_int q / 2 ^ 53"
proof -
  show "0 \<le> fst (round_ratio p q)"
    using assms round_pos_error(1) [of p q] by (auto simp: round_ratio_def)
  then show "0 \<le> dbl_val (round_ratio p q)"
    by (cases "round_ratio p q") (simp add: dbl_val_p2 p2_pos less_imp_le)
  show "dbl_val (round_ratio p q)
           \<le> real_of_int p / real_of_int q + real_of_int p / real_of_int q / 2 ^ 53"
  proof (cases "p = 0")
    case True
    then show ?thesis by (simp add: round_ratio_def dbl_val_def)
  next
    case False
    with assms have pos: "0 < p" by simp
    from round_pos_error(2) [OF pos assms(2)]
    have "dbl_val (round_pos p q) \<le> real_of_int p / real_of_int q
            + real_of_int p / real_of_int q / 2 ^ 53"
      by linarith
    then show ?thesis
      using pos by (simp add: round_ratio_def)
  qed
qed

lemma dbl_val_neg: "dbl_val (- m, t) = - dbl_val (m, t)"
  by (simp add: dbl_val_def)

lemma round_ratio_neg:
  assumes "p < 0" "0 < q"
  shows "fst (round_ratio p q) < 0"
    and "dbl_val (round_ratio p q) < 0"
    and "real_of_int p / real_of_int q + real_of_int p / real_of_int q / 2 ^ 53
           \<le> dbl_val (round_ratio p q)"
proof -
  have pos: "0 < - p" using assms by simp
  obtain m t where mt: "round_pos (- p) q = (m, t)"
    by (cases "round_pos (- p) q")
  have r: "round_ratio p q = (- m, t)"
    using assms by (simp add: round_ratio_def mt)
  from round_pos_error(1) [OF pos assms(2)] have m: "0 < m"
    by (simp add: mt)
  then show "fst (round_ratio p q) < 0"
    by (simp add: r)
  from m show "dbl_val (round_ratio p q) < 0"
    by (simp add: r dbl_val_p2 p2_pos)
  from round_pos_error(2) [OF pos assms(2)]
  have "dbl_val (m, t) \<le> real_of_int (- p) / real_of_int q
            + real_of_int (- p) / real_of_int q / 2 ^ 53"
    unfolding mt by linarith
  then show "real_of_int p / real_of_int q + real_of_int p / real_of_int q / 2 ^ 53
           \<le> dbl_val (round_ratio p q)"
    by (simp add: r dbl_val_neg)
qed

lemma dbl_floor_eq: "dbl_floor d = \<lfloor>dbl_val d\<rfloor>"
proof (cases "0 \<le> snd d")
  case True
  have "\<lfloor>real_of_int (fst d) / real_of_int (2 ^ nat (snd d))\<rfloor> = fst d div 2 ^ nat (snd d)"
    by (rule floor_divide_of_int_eq)
  with True show ?thesis
    by (simp add: dbl_floor_def dbl_val_def)
next
  case False
  have "\<lfloor>real_of_int (fst d * 2 ^ nat (- snd d))\<rfloor> = fst d * 2 ^ nat (- snd d)"
    by (rule floor_of_int)
  with False show ?thesis
    by (simp add: dbl_floor_def dbl_val_def)
qed


lemma bitlen_one: "bitlen 1 = 1"
  by (subst compute_bitlen) simp

lemma round_pos_int:
  assumes "0 < a" "a < 2 ^ 53"
  shows "0 \<le> round_exponent a 1"
    and "round_pos a 1 = (a * 2 ^ nat (round_exponent a 1), round_exponent a 1)"
proof -
  have "2 ^ nat (bitlen a - 1) \<le> a"
    using bitlen_bounds [OF assms(1)] by simp
  with assms(2) have "(2::int) ^ nat (bitlen a - 1) < 2 ^ 53"
    by linarith
  then have "nat (bitlen a - 1) < 53"
    by (rule power_less_imp_less_exp [rotated]) simp
  then have k: "bitlen a - bitlen 1 \<le> 52"
    by (simp add: bitlen_one)
  then show t: "0 \<le> round_exponent a 1"
    by (simp add: round_exponent_def Let_def)
  then have "scale 1 (- round_exponent a 1) = 1"
    by (simp add: scale_def)
  then show "round_pos a 1 = (a * 2 ^ nat (round_exponent a 1), round_exponent a 1)"
    by (simp add: round_pos_def Let_def round_mantissa_def scale_def)
qed

lemma double_of_int_exact:
  assumes "\<bar>x\<bar> < 2 ^ 53"
  shows "double_of_int x = x"
proof -
  consider "x = 0" | "0 < x" | "x < 0" by linarith
  then show ?thesis
  proof cases
    case 1
    then show ?thesis by (simp add: double_of_int_def round_ratio_def dbl_floor_def)
  next
    case 2
    with assms have "x < 2 ^ 53" by simp
    from round_pos_int [OF 2 this] 2 show ?thesis
      by (simp add: double_of_int_def round_ratio_def dbl_floor_def)
  next
    case 3
    with assms have "0 < - x" "- x < 2 ^ 53" by simp_all
    from round_pos_int [OF this] 3 show ?thesis
      by (simp add: double_of_int_def round_ratio_def dbl_floor_def)
  qed
qed

lemma dbl_floor_nonneg: "0 \<le> fst d \<Longrightarrow> 0 \<le> dbl_floor d"
  by (simp add: dbl_floor_def pos_imp_zdiv_nonneg_iff)

lemma double_of_int_nonneg: "0 \<le> x \<Longrightarrow> 0 \<le> double_of_int x"
  unfolding double_of_int_def by (intro dbl_floor_nonneg round_ratio_nonneg(1)) simp_all

section \<open>Properties of the generator\<close>

lemma js_rem_nonneg: "0 \<le> a \<Longrightarrow> js_rem a 233280 = a mod 233280"
  by (cases "a = 0") (simp_all add: js_rem_def)

lemma js_rem_bounds: "- 233280 < js_rem a 233280 \<and> js_rem a 233280 < 233280"
proof -
  have m: "0 \<le> \<bar>a\<bar> mod 233280 \<and> \<bar>a\<bar> mod 233280 < 233280"
    by simp
  consider "a < 0" | "a = 0" | "0 < a"
    by linarith
  then show ?thesis
  proof cases
    case 1
    then have "js_rem a 233280 = - (\<bar>a\<bar> mod 233280)"
      by (simp add: js_rem_def)
    with m show ?thesis by linarith
  next
    case 2
    then show ?thesis by (simp add: js_rem_def)
  next
    case 3
    then have "js_rem a 233280 = \<bar>a\<bar> mod 233280"
      by (simp add: js_rem_def)
    with m show ?thesis by linarith
  qed
qed

lemma next_seed: "seed (snd (Random_next rng))
    = js_rem (double_of_int (double_of_int (seed rng * 9301) + 49297)) 233280"
  by (simp add: Random_next_def Let_def)

lemma next_value: "fst (Random_next rng) = round_ratio (seed (snd (Random_next rng))) 233280"
  by (simp add: Random_next_def Let_def)

lemma next_seed_bounds:
  "- 233280 < seed (snd (Random_next rng)) \<and> seed (snd (Random_next rng)) < 233280"
  unfolding next_seed by (rule js_rem_bounds)

lemma next_seed_nonneg:
  assumes "0 \<le> seed rng"
  shows "0 \<le> seed (snd (Random_next rng)) \<and> seed (snd (Random_next rng)) < 233280"
proof -
  have "0 \<le> double_of_int (seed rng * 9301)"
    using assms by (intro double_of_int_nonneg) simp
  then have "0 \<le> double_of_int (double_of_int (seed rng * 9301) + 49297)"
    by (intro double_of_int_nonneg) simp
  then have "js_rem (double_of_int (double_of_int (seed rng * 9301) + 49297)) 233280
           = double_of_int (double_of_int (seed rng * 9301) + 49297) mod 233280"
    by (rule js_rem_nonneg)
  then show ?thesis
    by (simp add: next_seed)
qed

text \<open>While the sum stays below \<open>2^53\<close> the update is the integer recurrence.\<close>

lemma next_seed_exact:
  assumes "\<bar>seed rng * 9301 + 49297\<bar> < 2 ^ 53" "\<bar>seed rng * 9301\<bar> < 2 ^ 53"
  shows "seed (snd (Random_next rng)) = js_rem (seed rng * 9301 + 49297) 233280"
  using assms by (simp add: next_seed double_of_int_exact)

lemma small_state_exact:
  assumes "\<bar>seed rng\<bar> < 233280"
  shows "seed (snd (Random_next rng)) = js_rem (seed rng * 9301 + 49297) 233280"
proof -
  have "\<bar>seed rng * 9301\<bar> < 233280 * 9301"
    using assms by (simp add: abs_mult)
  then have "\<bar>seed rng * 9301 + 49297\<bar> < 2 ^ 53" "\<bar>seed rng * 9301\<bar> < 2 ^ 53"
    by simp_all
  then show ?thesis by (rule next_seed_exact)
qed

text \<open>The value of a draw: the quotient with a relative error of at most \<open>2^-53\<close>.\<close>

lemma next_value_range:
  "- 1 < dbl_val (fst (Random_next rng)) \<and> dbl_val (fst (Random_next rng)) < 1"
proof -
  let ?s = "seed (snd (Random_next rng))"
  define x where "x = real_of_int ?s / 233280"
  note b = next_seed_bounds [of rng]
  show ?thesis
  proof (cases "0 \<le> ?s")
    case True
    have "x \<le> 233279 / 233280" "0 \<le> x"
      using b True by (simp_all add: x_def)
    moreover from round_ratio_nonneg(2,3) [OF True, of 233280]
    have "0 \<le> dbl_val (fst (Random_next rng))" "dbl_val (fst (Random_next rng)) \<le> x + x / 2 ^ 53"
      by (simp_all add: next_value x_def)
    ultimately show ?thesis by simp
  next
    case False
    then have neg: "?s < 0" by simp
    have "- (233279 / 233280) \<le> x" "x \<le> 0"
      using b neg by (simp_all add: x_def)
    moreover from round_ratio_neg(2,3) [OF neg, of 233280]
    have "dbl_val (fst (Random_next rng)) < 0" "x + x / 2 ^ 53 \<le> dbl_val (fst (Random_next rng))"
      by (simp_all add: next_value x_def)
    ultimately show ?thesis by simp
  qed
qed

lemma next_value_nonneg:
  "0 \<le> seed rng \<Longrightarrow> 0 \<le> dbl_val (fst (Random_next rng)) \<and> 0 \<le> fst (fst (Random_next rng))"
  using round_ratio_nonneg(1,2) [of "seed (snd (Random_next rng))" 233280] next_seed_nonneg [of rng]
  by (simp add: next_value)

lemma dbl_times_val:
  assumes "0 \<le> fst d" "0 \<le> n"
  shows "0 \<le> fst (dbl_times d n)"
    and "dbl_val (dbl_times d n)
           \<le> dbl_val d * real_of_int n + dbl_val d * real_of_int n / 2 ^ 53"
proof -
  have mn: "0 \<le> fst d * n"
    using assms by simp
  obtain m' t' where r: "round_ratio (fst d * n) 1 = (m', t')"
    by (cases "round_ratio (fst d * n) 1")
  define y where "y = real_of_int (fst d * n)"
  from round_ratio_nonneg(1) [OF mn, of 1] show "0 \<le> fst (dbl_times d n)"
    by (simp add: dbl_times_def)
  from round_ratio_nonneg(3) [OF mn, of 1]
  have "real_of_int m' / p2 t' \<le> y + y / 2 ^ 53"
    by (simp add: r dbl_val_p2 y_def)
  then have "real_of_int m' / p2 t' / p2 (snd d) \<le> (y + y / 2 ^ 53) / p2 (snd d)"
    using p2_pos [of "snd d"] by (intro divide_right_mono) simp_all
  moreover have "dbl_val (dbl_times d n) = real_of_int m' / p2 t' / p2 (snd d)"
    by (simp add: dbl_times_def r dbl_val_p2 p2_add)
  moreover have "dbl_val d * real_of_int n = y / p2 (snd d)"
    by (cases d) (simp add: dbl_val_p2 y_def)
  moreover have "(y + y / 2 ^ 53) / p2 (snd d) = y / p2 (snd d) + y / p2 (snd d) / 2 ^ 53"
    by (simp add: add_divide_distrib)
  ultimately show "dbl_val (dbl_times d n)
           \<le> dbl_val d * real_of_int n + dbl_val d * real_of_int n / 2 ^ 53"
    by simp
qed

text \<open>An index drawn from a non-negative state is in range, roundings included.\<close>

lemma draw_range:
  assumes "0 \<le> seed rng" "0 < n"
  shows "0 \<le> floor_times (fst (Random_next rng)) n \<and> floor_times (fst (Random_next rng)) n < n"
proof -
  let ?v = "fst (Random_next rng)" and ?s = "seed (snd (Random_next rng))"
  define x where "x = real_of_int ?s / 233280"
  define y where "y = dbl_val ?v * real_of_int n"
  note s = next_seed_nonneg [OF assms(1)]
  note v = next_value_nonneg [OF assms(1)]
  have n: "0 \<le> n" using assms(2) by simp
  note w = dbl_times_val [OF v [THEN conjunct2] n]
  have lo: "0 \<le> floor_times ?v n"
    unfolding floor_times_def by (rule dbl_floor_nonneg [OF w(1)])
  have "x \<le> 233279 / 233280" "0 \<le> x"
    using s by (simp_all add: x_def)
  moreover from round_ratio_nonneg(3) [of ?s 233280] s
  have "dbl_val ?v \<le> x + x / 2 ^ 53"
    by (simp add: next_value x_def)
  ultimately have "dbl_val ?v \<le> 233279 / 233280 + 1 / 2 ^ 53"
    by simp
  then have "y \<le> (233279 / 233280 + 1 / 2 ^ 53) * real_of_int n"
    unfolding y_def using n by (intro mult_right_mono) simp_all
  moreover have "dbl_val (dbl_times ?v n) \<le> y + y / 2 ^ 53"
    using w(2) by (simp add: y_def)
  moreover have "0 < real_of_int n"
    using assms(2) by simp
  ultimately have "dbl_val (dbl_times ?v n) < real_of_int n"
    by simp
  then have "\<lfloor>dbl_val (dbl_times ?v n)\<rfloor> < n"
    by (simp add: floor_less_iff)
  with lo show ?thesis
    by (simp add: floor_times_def dbl_floor_eq)
qed

lemma state_after_nonneg: "0 \<le> seed rng \<Longrightarrow> 0 \<le> seed (state_after n rng)"
  by (induction n) (simp_all add: next_seed_nonneg)

lemma state_after_small: "\<bar>seed (state_after (Suc n) rng)\<bar> < 233280"
  using next_seed_bounds [of "state_after n rng"] by (simp add: abs_less_iff)

lemma round_ratio_error:
  assumes "0 < q"
  shows "\<bar>dbl_val (round_ratio p q) - real_of_int p / real_of_int q\<bar>
           \<le> \<bar>real_of_int p / real_of_int q\<bar> / 2 ^ 53"
proof -
  define x where "x = real_of_int p / real_of_int q"
  consider "p = 0" | "0 < p" | "p < 0"
    by linarith
  then have "\<bar>dbl_val (round_ratio p q) - x\<bar> \<le> \<bar>x\<bar> / 2 ^ 53"
  proof cases
    case 1
    then show ?thesis by (simp add: round_ratio_def dbl_val_def x_def)
  next
    case 2
    then have x: "\<bar>x\<bar> = x"
      using assms by (simp add: x_def)
    from round_pos_error(2) [OF 2 assms]
    have "\<bar>dbl_val (round_pos p q) - x\<bar> \<le> x / 2 ^ 53"
      by (simp add: x_def)
    moreover have "round_ratio p q = round_pos p q"
      using 2 by (simp add: round_ratio_def)
    ultimately show ?thesis
      unfolding x by simp
  next
    case 3
    then have pos: "0 < - p" by simp
    obtain m t where mt: "round_pos (- p) q = (m, t)"
      by (cases "round_pos (- p) q")
    have r: "round_ratio p q = (- m, t)"
      using 3 by (simp add: round_ratio_def mt)
    have x: "x < 0"
      using 3 assms by (simp add: x_def divide_neg_pos)
    from round_pos_error(2) [OF pos assms]
    have "\<bar>dbl_val (m, t) - (- x)\<bar> \<le> (- x) / 2 ^ 53"
      by (simp add: mt x_def)
    moreover have "\<bar>dbl_val (- m, t) - x\<bar> = \<bar>dbl_val (m, t) - (- x)\<bar>"
      unfolding dbl_val_neg by linarith
    moreover have "\<bar>x\<bar> = - x"
      using x by simp
    ultimately show ?thesis
      unfolding r by simp
  qed
  then show ?thesis
    unfolding x_def .
qed

text \<open>
  C4. For a seed that is a safe integer, each call of \<^verbatim>\<open>next\<close> replaces the state by
  \<^verbatim>\<open>(state * 9301 + 49297) % 233280\<close> as computed on doubles: the product and the sum
  are rounded to the nearest double, and \<^verbatim>\<open>%\<close> takes the sign of the dividend. This is
  the integer recurrence, with JavaScript's remainder, as long as
  \<open>\<bar>state\<bar> * 9301 + 49297 < 2^53\<close>: at every call after the first, and at the first
  call for \<open>\<bar>seed\<bar> \<le> 968411918577\<close>. The call returns the double nearest to
  \<open>state / 233280\<close>, within a relative error of \<open>2^-53\<close>, strictly between \<open>-1\<close> and
  \<open>1\<close>. For a non-negative seed the remainder is the mathematical \<open>mod\<close> and the value
  is in \<open>[0, 1)\<close>. The values returned depend on the seed only. The claim as stated
  promises the integer recurrence and \<open>[0, 1)\<close> for every integer seed.
\<close>

theorem C4_next_contract:
  assumes "safe_integer s"
  shows "seed (state_after (Suc n) (new_Random s))
     = js_rem (double_of_int (double_of_int (seed (state_after n (new_Random s)) * 9301) + 49297))
         233280
   \<and> (0 < n \<or> \<bar>s\<bar> * 9301 + 49297 < 2 ^ 53 \<longrightarrow>
        seed (state_after (Suc n) (new_Random s))
          = js_rem (seed (state_after n (new_Random s)) * 9301 + 49297) 233280)
   \<and> nth_output n (new_Random s) = round_ratio (seed (state_after (Suc n) (new_Random s))) 233280
   \<and> \<bar>dbl_val (nth_output n (new_Random s))
        - real_of_int (seed (state_after (Suc n) (new_Random s))) / 233280\<bar>
       \<le> \<bar>real_of_int (seed (state_after (Suc n) (new_Random s))) / 233280\<bar> / 2 ^ 53
   \<and> - 1 < dbl_val (nth_output n (new_Random s)) \<and> dbl_val (nth_output n (new_Random s)) < 1
   \<and> (0 \<le> s \<longrightarrow>
        0 \<le> dbl_val (nth_output n (new_Random s))
        \<and> (0 < n \<or> s * 9301 + 49297 < 2 ^ 53 \<longrightarrow>
             seed (state_after (Suc n) (new_Random s))
               = (seed (state_after n (new_Random s)) * 9301 + 49297) mod 233280))
   \<and> (\<forall>r. seed r = s \<longrightarrow> nth_output n r = nth_output n (new_Random s))"
proof -
  let ?r = "state_after n (new_Random s)"
  let ?r' = "state_after (Suc n) (new_Random s)"
  let ?v = "nth_output n (new_Random s)"
  have upd: "seed ?r' = js_rem (double_of_int (double_of_int (seed ?r * 9301) + 49297)) 233280"
    by (simp add: next_seed)
  have exact: "seed ?r' = js_rem (seed ?r * 9301 + 49297) 233280"
    if "0 < n \<or> \<bar>s\<bar> * 9301 + 49297 < 2 ^ 53"
  proof (cases n)
    case 0
    with that have b: "\<bar>s\<bar> * 9301 + 49297 < 2 ^ 53"
      by simp
    have "\<bar>s * 9301 + 49297\<bar> \<le> \<bar>s\<bar> * 9301 + 49297" "\<bar>s * 9301\<bar> = \<bar>s\<bar> * 9301"
      by (simp_all add: abs_mult)
    with b have "\<bar>seed (new_Random s) * 9301 + 49297\<bar> < 2 ^ 53"
      "\<bar>seed (new_Random s) * 9301\<bar> < 2 ^ 53"
      by (simp_all add: new_Random_def)
    then have "seed (snd (Random_next (new_Random s)))
               = js_rem (seed (new_Random s) * 9301 + 49297) 233280"
      by (rule next_seed_exact)
    with 0 show ?thesis by simp
  next
    case (Suc m)
    have "\<bar>seed (state_after (Suc m) (new_Random s))\<bar> < 233280"
      by (rule state_after_small)
    then have "seed (snd (Random_next (state_after (Suc m) (new_Random s))))
               = js_rem (seed (state_after (Suc m) (new_Random s)) * 9301 + 49297) 233280"
      by (rule small_state_exact)
    with Suc show ?thesis by simp
  qed
  have val: "?v = round_ratio (seed ?r') 233280"
    by (simp add: nth_output_def next_value)
  have err: "\<bar>dbl_val ?v - real_of_int (seed ?r') / 233280\<bar>
             \<le> \<bar>real_of_int (seed ?r') / 233280\<bar> / 2 ^ 53"
    unfolding val using round_ratio_error [of 233280 "seed ?r'"] by simp
  have rng: "- 1 < dbl_val ?v \<and> dbl_val ?v < 1"
    unfolding nth_output_def by (rule next_value_range)
  have pos: "0 \<le> dbl_val ?v
             \<and> (0 < n \<or> s * 9301 + 49297 < 2 ^ 53 \<longrightarrow>
                  seed ?r' = (seed ?r * 9301 + 49297) mod 233280)" if "0 \<le> s"
  proof -
    have r: "0 \<le> seed ?r"
      using that by (intro state_after_nonneg) (simp add: new_Random_def)
    then have "0 \<le> seed ?r * 9301 + 49297"
      by simp
    then have m: "js_rem (seed ?r * 9301 + 49297) 233280 = (seed ?r * 9301 + 49297) mod 233280"
      by (rule js_rem_nonneg)
    have "0 \<le> dbl_val ?v"
      unfolding nth_output_def using next_value_nonneg [OF r] by simp
    moreover have "seed ?r' = (seed ?r * 9301 + 49297) mod 233280"
      if "0 < n \<or> s * 9301 + 49297 < 2 ^ 53"
    proof -
      from that \<open>0 \<le> s\<close> have "0 < n \<or> \<bar>s\<bar> * 9301 + 49297 < 2 ^ 53"
        by simp
      then show ?thesis
        using exact m by simp
    qed
    ultimately show ?thesis by blast
  qed
  have det: "\<forall>r. seed r = s \<longrightarrow> nth_output n r = nth_output n (new_Random s)"
  proof (intro allI impI)
    fix r :: Random
    assume "seed r = s"
    then have "r = new_Random s"
      by (cases r) (simp add: new_Random_def)
    then show "nth_output n r = nth_output n (new_Random s)"
      by simp
  qed
  show ?thesis
    using upd exact val err rng pos det by blast
qed

theorem C4_next_contract_witness:
  "safe_integer 1
   \<and> seed (state_after (Suc 0) (new_Random 1)) = 58598
   \<and> 0 \<le> dbl_val (nth_output 0 (new_Random 1)) \<and> dbl_val (nth_output 0 (new_Random 1)) < 1"
proof -
  have s: "safe_integer 1"
    by (simp add: safe_integer_def)
  have e: "0 < (0::nat) \<or> \<bar>1::int\<bar> * 9301 + 49297 < 2 ^ 53" and p: "(0::int) \<le> 1"
    by simp_all
  from C4_next_contract [OF s, of 0] e p
  have a: "seed (state_after (Suc 0) (new_Random 1))
           = js_rem (seed (state_after 0 (new_Random 1)) * 9301 + 49297) 233280"
    and b: "0 \<le> dbl_val (nth_output 0 (new_Random 1))"
    and c: "dbl_val (nth_output 0 (new_Random 1)) < 1"
    by blast+
  from a have "seed (state_after (Suc 0) (new_Random 1)) = 58598"
    by (simp add: new_Random_def js_rem_def)
  with s b c show ?thesis
    by blast
qed

text \<open>
  The seed \<open>-6\<close> gives the state \<open>-6509\<close> and a negative value. The seed
  \<open>1700000000000\<close>, a time in milliseconds, gives the state \<open>9296\<close>, where the integer
  recurrence gives \<open>9297\<close>: the sum \<open>15811700000049297\<close> is rounded to
  \<open>15811700000049296\<close>.
\<close>

theorem C4_seed_counterexample:
  "seed (snd (Random_next (new_Random (- 6)))) = - 6509
   \<and> dbl_val (fst (Random_next (new_Random (- 6)))) < 0
   \<and> safe_integer 1700000000000
   \<and> seed (snd (Random_next (new_Random 1700000000000))) = 9296
   \<and> (1700000000000 * 9301 + 49297) mod 233280 = (9297 :: int)"
proof -
  have a: "seed (snd (Random_next (new_Random (- 6)))) = - 6509"
    using small_state_exact [of "new_Random (- 6)"] by (simp add: new_Random_def js_rem_def)
  have b: "dbl_val (fst (Random_next (new_Random (- 6)))) < 0"
    unfolding next_value a by (rule round_ratio_neg(2)) simp_all
  have c: "safe_integer 1700000000000"
    by (simp add: safe_integer_def)
  have d: "seed (snd (Random_next (new_Random 1700000000000))) = 9296"
    by code_simp
  have e: "(1700000000000 * 9301 + 49297) mod 233280 = (9297 :: int)"
    by simp
  show ?thesis
    using a b c d e by blast
qed

section \<open>Properties of \<^verbatim>\<open>shuffleArray\<close>\<close>

lemma swap_in_range:
  assumes "i < length xs" "j < length xs"
  shows "swap \<lparr>elems = map Some xs, props = p\<rparr> (int i) (int j)
         = \<lparr>elems = map Some (xs[i := xs ! j, j := xs ! i]), props = p\<rparr>"
  using assms by (simp add: swap_def arr_get_def arr_set_def Let_def map_update)

text \<open>From a non-negative state the loop never leaves the array.\<close>

lemma shuffle_loop_refines:
  assumes "0 \<le> seed rng" "k < length xs \<or> k = 0"
  shows "shuffle_loop k rng \<lparr>elems = map Some xs, props = p\<rparr>
         = \<lparr>elems = map Some (fisher_yates k rng xs), props = p\<rparr>"
  using assms
proof (induction k arbitrary: rng xs)
  case 0
  then show ?case by simp
next
  case (Suc k)
  obtain v rng' where nx: "Random_next rng = (v, rng')"
    by (cases "Random_next rng")
  define j where "j = floor_times v (int (Suc k) + 1)"
  have r: "0 \<le> seed rng'"
    using next_seed_nonneg [OF Suc.prems(1)] nx by simp
  have "0 \<le> j \<and> j < int (Suc k) + 1"
    using draw_range [OF Suc.prems(1), of "int (Suc k) + 1"] nx by (simp add: j_def)
  then have j: "0 \<le> j" "nat j < length xs"
    using Suc.prems(2) by auto
  have i: "Suc k < length xs"
    using Suc.prems(2) by simp
  let ?ys = "xs[Suc k := xs ! nat j, nat j := xs ! Suc k]"
  have "shuffle_loop (Suc k) rng \<lparr>elems = map Some xs, props = p\<rparr>
        = shuffle_loop k rng' (swap \<lparr>elems = map Some xs, props = p\<rparr> (int (Suc k)) j)"
    by (simp add: nx j_def)
  also have "\<dots> = shuffle_loop k rng' \<lparr>elems = map Some ?ys, props = p\<rparr>"
    using swap_in_range [OF i j(2), of p] j(1) by simp
  also have "\<dots> = \<lparr>elems = map Some (fisher_yates k rng' ?ys), props = p\<rparr>"
    using i by (intro Suc.IH [OF r]) simp
  also have "fisher_yates k rng' ?ys = fisher_yates (Suc k) rng xs"
    by (simp add: nx j_def Let_def)
  finally show ?case .
qed

lemma fisher_yates_mset:
  assumes "0 \<le> seed rng" "k < length xs \<or> k = 0"
  shows "mset (fisher_yates k rng xs) = mset xs"
  using assms
proof (induction k arbitrary: rng xs)
  case 0
  then show ?case by simp
next
  case (Suc k)
  obtain v rng' where nx: "Random_next rng = (v, rng')"
    by (cases "Random_next rng")
  define j where "j = nat (floor_times v (int (Suc k) + 1))"
  have r: "0 \<le> seed rng'"
    using next_seed_nonneg [OF Suc.prems(1)] nx by simp
  have "floor_times v (int (Suc k) + 1) < int (Suc k) + 1"
    using draw_range [OF Suc.prems(1), of "int (Suc k) + 1"] nx by simp
  then have j: "j < length xs"
    using Suc.prems(2) by (auto simp: j_def)
  have i: "Suc k < length xs"
    using Suc.prems(2) by simp
  let ?ys = "xs[Suc k := xs ! j, j := xs ! Suc k]"
  have "mset (fisher_yates (Suc k) rng xs) = mset (fisher_yates k rng' ?ys)"
    by (simp add: nx j_def Let_def)
  also have "\<dots> = mset ?ys"
    using i by (intro Suc.IH [OF r]) simp
  also have "\<dots> = mset xs"
    using i j by (simp add: mset_swap)
  finally show ?case .
qed

text \<open>The draws of two small runs, evaluated one call at a time.\<close>

lemma next_at_1: "Random_next \<lparr>seed = 1\<rparr> = ((4525067403372022, 54), \<lparr>seed = 58598\<rparr>)"
  by code_simp

lemma next_at_58598:
  "Random_next \<lparr>seed = 58598\<rparr> = ((4911912093586571, 53), \<lparr>seed = 127215\<rparr>)"
  by code_simp

lemma floor_at_1: "floor_times (4525067403372022, 54) 3 = 0"
  by code_simp

lemma floor_at_58598: "floor_times (4911912093586571, 53) 2 = 1"
  by code_simp

lemma next_at_minus_6:
  "Random_next \<lparr>seed = - 6\<rparr> = ((- 8042230445693980, 58), \<lparr>seed = - 6509\<rparr>)"
  by code_simp

lemma floor_at_minus_6: "floor_times (- 8042230445693980, 58) 2 = - 1"
  by code_simp

lemma shuffle_run_1: "shuffleArray [10::nat, 20, 30] 1 = [Some 30, Some 20, Some 10]"
  by (simp add: shuffleArray_def new_Random_def numeral_2_eq_2 next_at_1 next_at_58598
      floor_at_1 floor_at_58598 swap_def arr_get_def arr_set_def)

text \<open>
  C5. For every seed \<open>s\<close> that is a non-negative safe integer and every list \<open>L\<close> (an
  array has fewer than \<open>2^32\<close> elements), \<^verbatim>\<open>shuffleArray(L, s)\<close> is the seeded
  Fisher-Yates shuffle of \<open>L\<close> (for \<open>i\<close> from the last index down to 1,
  \<open>j = floor(next() * (i+1))\<close> on doubles, swap the elements \<open>i\<close> and \<open>j\<close>), and a
  permutation of \<open>L\<close>: the same length and the same multiset of elements. The claim as
  stated covers negative seeds too.
\<close>

theorem C5_shuffle_permutation:
  assumes "0 \<le> s" "safe_integer s" "length L < 2 ^ 32"
  shows "shuffleArray L s = map Some (fisher_yates (length L - 1) (new_Random s) L)
     \<and> mset (fisher_yates (length L - 1) (new_Random s) L) = mset L
     \<and> length (shuffleArray L s) = length L
     \<and> mset (shuffleArray L s) = mset (map Some L)"
proof -
  have r: "0 \<le> seed (new_Random s)"
    using assms(1) by (simp add: new_Random_def)
  have k: "length L - 1 < length L \<or> length L - 1 = 0"
    by (cases L) simp_all
  have a: "shuffleArray L s = map Some (fisher_yates (length L - 1) (new_Random s) L)"
    unfolding shuffleArray_def by (simp only: shuffle_loop_refines [OF r k] jsarray.simps)
  have b: "mset (fisher_yates (length L - 1) (new_Random s) L) = mset L"
    by (rule fisher_yates_mset [OF r k])
  have "length (fisher_yates (length L - 1) (new_Random s) L) = length L"
    using b by (metis size_mset)
  with a b show ?thesis by simp
qed

theorem C5_shuffle_permutation_witness:
  "(0::int) \<le> 1 \<and> safe_integer 1 \<and> length [10::nat, 20, 30] < 2 ^ 32
   \<and> shuffleArray [10::nat, 20, 30] 1 = [Some 30, Some 20, Some 10]"
  using C5_shuffle_permutation [of 1 "[10::nat, 20, 30]"] shuffle_run_1
  by (simp add: safe_integer_def)

text \<open>
  With the seed \<open>-6\<close> the first draw is negative, the index \<open>j\<close> is \<open>-1\<close>, and the last
  element of \<open>[1, 2]\<close> is replaced by \<^verbatim>\<open>undefined\<close>.
\<close>

theorem C5_negative_seed_counterexample:
  "shuffleArray [1::nat, 2] (- 6) = [Some 1, None]
   \<and> mset (shuffleArray [1::nat, 2] (- 6)) \<noteq> mset (map Some [1, 2])"
  by (simp add: shuffleArray_def new_Random_def next_at_minus_6 floor_at_minus_6
      swap_def arr_get_def arr_set_def)

section \<open>The crossword on an empty list and on a single word\<close>

text \<open>
  C1. On the empty word list the bounding box keeps its initial values
  \<open>(40, 0, 40, 0)\<close>, the height is \<open>(0 - 39) + 2 = -37\<close>, and \<^verbatim>\<open>Array(height)\<close> throws a
  RangeError: \<^verbatim>\<open>generateCrossword([], seed)\<close> returns no layout, for any seed.
\<close>

theorem C1_empty_list_throws:
  "generateCrossword up [] s = Inl RangeError"
  by (simp add: generateCrossword_def placeAll_def sortedWords_def crop_def bounds_def
      gridSize_def)

text \<open>The layout of the single word \<open>ROBOT\<close>, when upper-casing leaves it as it is.\<close>

lemma robot_layout:
  "map_sum id (\<lambda>(grid, placedWords). (placedWords, map (charAt grid 20) [17, 18, 19, 20, 21, 22, 23]))
     (placeAll (\<lambda>w. w) [\<lparr>wp_id = i, wp_word = js ''ROBOT'', wp_definition = d\<rparr>] s)
   = Inr ([\<lparr>cw_word = js ''ROBOT'', cw_clue = d, cw_x = 18, cw_y = 20, cw_direction = across\<rparr>],
          [None, Some (js ''R''), Some (js ''O''), Some (js ''B''), Some (js ''O''),
           Some (js ''T''), None])
   \<and> generateCrossword (\<lambda>w. w) [\<lparr>wp_id = i, wp_word = js ''ROBOT'', wp_definition = d\<rparr>] s
   = Inr \<lparr>cl_grid =
            map (\<lambda>y. map (\<lambda>x. \<lparr>cell_char = (if y = 1 \<and> 1 \<le> x \<and> x \<le> 5
                                              then Some [js ''ROBOT'' ! (x - 1)] else None),
                               cell_x = int x, cell_y = int y\<rparr>) [0..<8]) [0..<4],
          cl_placedWords =
            [\<lparr>cw_word = js ''ROBOT'', cw_clue = d, cw_x = 1, cw_y = 1, cw_direction = across,
              cw_number = Some 1\<rparr>],
          cl_width = 8, cl_height = 4\<rparr>"
  by code_simp

lemma single_word_up:
  assumes "up w = w"
  shows "placeAll up [\<lparr>wp_id = i, wp_word = w, wp_definition = d\<rparr>] s
         = placeAll (\<lambda>w. w) [\<lparr>wp_id = i, wp_word = w, wp_definition = d\<rparr>] s"
  by (simp add: placeAll_def cleanWord_def sortedWords_def assms Let_def split: sum.splits)

text \<open>
  C2. For the single word \<open>ROBOT\<close> and any seed, the word is placed across on row 20 of
  the canvas, in the columns 18 to 22 around the centre column 20, as the claim says. The
  cropped layout that the code returns has width 8 and height 4, not the width
  \<open>5 + 2 = 7\<close> and the height \<open>1 + 2 = 3\<close> of the claim and of the one-cell padding it
  describes: the crop subtracts the padding from \<open>minX\<close> and \<open>minY\<close> first and then adds 2
  to \<open>maxX - minX\<close> and \<open>maxY - minY\<close>, where \<open>maxX\<close> and \<open>maxY\<close> are already one past the
  last letter. The layout has one empty column before the word and two after it, one
  empty row above and two below.
\<close>

theorem C2_robot_layout:
  assumes "up (js ''ROBOT'') = js ''ROBOT''"
  shows "map_sum id (\<lambda>(grid, placedWords). (placedWords, map (charAt grid 20) [17, 18, 19, 20, 21, 22, 23]))
     (placeAll up [\<lparr>wp_id = i, wp_word = js ''ROBOT'', wp_definition = d\<rparr>] s)
   = Inr ([\<lparr>cw_word = js ''ROBOT'', cw_clue = d, cw_x = 18, cw_y = 20, cw_direction = across\<rparr>],
          [None, Some (js ''R''), Some (js ''O''), Some (js ''B''), Some (js ''O''),
           Some (js ''T''), None])
   \<and> generateCrossword up [\<lparr>wp_id = i, wp_word = js ''ROBOT'', wp_definition = d\<rparr>] s
   = Inr \<lparr>cl_grid =
            map (\<lambda>y. map (\<lambda>x. \<lparr>cell_char = (if y = 1 \<and> 1 \<le> x \<and> x \<le> 5
                                              then Some [js ''ROBOT'' ! (x - 1)] else None),
                               cell_x = int x, cell_y = int y\<rparr>) [0..<8]) [0..<4],
          cl_placedWords =
            [\<lparr>cw_word = js ''ROBOT'', cw_clue = d, cw_x = 1, cw_y = 1, cw_direction = across,
              cw_number = Some 1\<rparr>],
          cl_width = 8, cl_height = 4\<rparr>"
  using robot_layout [of i d s]
  unfolding generateCrossword_def single_word_up [of up "js ''ROBOT''", OF assms] .

theorem C2_robot_layout_witness:
  "(\<lambda>w. w) (js ''ROBOT'') = js ''ROBOT''
   \<and> map_sum id (\<lambda>layout. (cl_width layout, cl_height layout))
       (generateCrossword (\<lambda>w. w) [\<lparr>wp_id = [], wp_word = js ''ROBOT'', wp_definition = []\<rparr>] 0)
     = Inr (8, 4)"
  using C2_robot_layout [where up = "\<lambda>w. w" and i = "[]" and d = "[]" and s = 0] by simp
section \<open>Properties of \<^verbatim>\<open>generateWordSearch\<close>\<close>

lemma ws_at_Some:
  "ws_at g cy cx = Some v \<Longrightarrow>
     0 \<le> cy \<and> cy < int (length g) \<and> 0 \<le> cx \<and> cx < int (length (g ! nat cy))
     \<and> g ! nat cy ! nat cx = Some v"
  by (auto simp: ws_at_def js_index_def split: if_splits option.splits)

lemma ws_at_in_range:
  "0 \<le> cy \<Longrightarrow> cy < int (length g) \<Longrightarrow> 0 \<le> cx \<Longrightarrow> cx < int (length (g ! nat cy)) \<Longrightarrow>
     ws_at g cy cx = g ! nat cy ! nat cx"
  by (simp add: ws_at_def js_index_def)

lemma ws_at_set_cell:
  "ws_at (set_cell g cy cx v) y x =
     (if 0 \<le> cy \<and> cy < int (length g) \<and> 0 \<le> cx \<and> cx < int (length (g ! nat cy))
         \<and> y = cy \<and> x = cx then v else ws_at g y x)"
proof (cases "0 \<le> cy \<and> cy < int (length g) \<and> 0 \<le> cx \<and> cx < int (length (g ! nat cy))")
  case False
  then have "set_cell g cy cx v = g"
    unfolding set_cell_def by (simp only: if_False)
  with False show ?thesis by auto
next
  case True
  let ?g = "g[nat cy := (g ! nat cy)[nat cx := v]]"
  have g: "set_cell g cy cx v = ?g"
    using True by (simp add: set_cell_def)
  have row: "js_index ?g y' = (if y' = cy then Some ((g ! nat cy)[nat cx := v]) else js_index g y')"
    for y'
    using True by (auto simp: js_index_def nth_list_update)
  have cell: "js_index ((g ! nat cy)[nat cx := v]) x'
                = (if x' = cx then Some v else js_index (g ! nat cy) x')" for x'
    using True by (auto simp: js_index_def nth_list_update)
  show ?thesis
  proof (cases "y = cy")
    case y: True
    have "js_index g cy = Some (g ! nat cy)"
      using True by (simp add: js_index_def)
    then show ?thesis
      using True y by (simp add: g ws_at_def row cell)
  next
    case False
    then show ?thesis
      using True by (simp add: g ws_at_def row)
  qed
qed

lemma square_set_cell: "square g sz \<Longrightarrow> square (set_cell g cy cx v) sz"
  by (auto simp: square_def set_cell_def list_all_iff dest!: set_update_subset_insert [THEN subsetD])

lemma cells_ok_set_cell:
  "cells_ok g \<Longrightarrow> v = Some [] \<or> letter_cell v \<Longrightarrow> cells_ok (set_cell g cy cx v)"
  by (auto simp: cells_ok_def set_cell_def list_all_iff
      dest!: set_update_subset_insert [THEN subsetD])


lemma fits_loop_cells:
  "fits_loop g t sx sy dx dy ks = Inr True \<Longrightarrow> i \<in> set ks \<Longrightarrow>
     ws_at g (sy + int i * dy) (sx + int i * dx) = Some []
     \<or> ws_at g (sy + int i * dy) (sx + int i * dx) = Some [t ! i]"
proof (induction ks)
  case Nil
  then show ?case by simp
next
  case (Cons k ks)
  from Cons.prems(1) obtain row where row: "js_index g (sy + int k * dy) = Some row"
    by (auto split: option.splits)
  let ?c = "case js_index row (sx + int k * dx) of None \<Rightarrow> None | Some c \<Rightarrow> c"
  have at: "ws_at g (sy + int k * dy) (sx + int k * dx) = ?c"
    by (simp add: ws_at_def row)
  from Cons.prems(1) have ok: "?c = Some [] \<or> ?c = Some [t ! k]"
    and rest: "fits_loop g t sx sy dx dy ks = Inr True"
    by (auto simp: row Let_def split: if_splits)
  show ?case
  proof (cases "i = k")
    case True
    with ok at show ?thesis by simp
  next
    case False
    with Cons.prems(2) have "i \<in> set ks" by simp
    with Cons.IH rest show ?thesis by blast
  qed
qed

lemma fits_loop_no_error:
  "\<forall>i\<in>set ks. 0 \<le> sy + int i * dy \<and> sy + int i * dy < int (length g) \<Longrightarrow>
     \<exists>b. fits_loop g t sx sy dx dy ks = Inr b"
proof (induction ks)
  case Nil
  show ?case by (rule exI [of _ True]) simp
next
  case (Cons k ks)
  then have "js_index g (sy + int k * dy) = Some (g ! nat (sy + int k * dy))"
    by (simp add: js_index_def)
  moreover obtain b where "fits_loop g t sx sy dx dy ks = Inr b"
    using Cons by auto
  ultimately show ?case
    by (auto simp: Let_def)
qed

lemma line_inj:
  fixes dx dy :: int
  assumes "(dx, dy) \<noteq> (0, 0)" "sy + int i * dy = sy + int k * dy" "sx + int i * dx = sx + int k * dx"
  shows "i = k"
  using assms by auto

lemma write_loop_props:
  assumes "\<forall>i\<in>set ks. ws_at g (sy + int i * dy) (sx + int i * dx) = Some []
                     \<or> ws_at g (sy + int i * dy) (sx + int i * dx) = Some [t ! i]"
    and "distinct ks" "(dx, dy) \<noteq> (0, 0)"
  shows "(\<forall>y x. ws_at g y x \<noteq> Some [] \<longrightarrow> ws_at (write_loop g t sx sy dx dy ks) y x = ws_at g y x)
       \<and> (\<forall>i\<in>set ks. ws_at (write_loop g t sx sy dx dy ks) (sy + int i * dy) (sx + int i * dx)
                        = Some [t ! i])"
  using assms
proof (induction ks arbitrary: g)
  case Nil
  then show ?case by simp
next
  case (Cons k ks)
  let ?y = "sy + int k * dy" and ?x = "sx + int k * dx"
  let ?g1 = "set_cell g ?y ?x (Some [t ! k])"
  from Cons.prems(1) obtain v where v: "ws_at g ?y ?x = Some v" "v = [] \<or> v = [t ! k]"
    by auto
  note rng = ws_at_Some [OF v(1)]
  have g1: "ws_at ?g1 y x = (if y = ?y \<and> x = ?x then Some [t ! k] else ws_at g y x)" for y x
    using rng by (simp add: ws_at_set_cell)
  have pre: "\<forall>i\<in>set ks. ws_at ?g1 (sy + int i * dy) (sx + int i * dx) = Some []
                     \<or> ws_at ?g1 (sy + int i * dy) (sx + int i * dx) = Some [t ! i]"
  proof
    fix i assume i: "i \<in> set ks"
    then have "i \<noteq> k" using Cons.prems(2) by auto
    then have "\<not> (sy + int i * dy = ?y \<and> sx + int i * dx = ?x)"
      using line_inj [OF Cons.prems(3), of sy i k sx] by blast
    then have "ws_at ?g1 (sy + int i * dy) (sx + int i * dx) = ws_at g (sy + int i * dy) (sx + int i * dx)"
      by (simp only: g1 if_False)
    with Cons.prems(1) i show "ws_at ?g1 (sy + int i * dy) (sx + int i * dx) = Some []
                     \<or> ws_at ?g1 (sy + int i * dy) (sx + int i * dx) = Some [t ! i]"
      by simp
  qed
  have ih: "(\<forall>y x. ws_at ?g1 y x \<noteq> Some [] \<longrightarrow> ws_at (write_loop ?g1 t sx sy dx dy ks) y x = ws_at ?g1 y x)
       \<and> (\<forall>i\<in>set ks. ws_at (write_loop ?g1 t sx sy dx dy ks) (sy + int i * dy) (sx + int i * dx)
                        = Some [t ! i])"
    using Cons.prems(2,3) by (intro Cons.IH [OF pre]) simp_all
  have keep: "ws_at ?g1 y x = ws_at g y x" if "ws_at g y x \<noteq> Some []" for y x
    using that v by (auto simp: g1)
  have a: "ws_at (write_loop g t sx sy dx dy (k # ks)) y x = ws_at g y x"
    if "ws_at g y x \<noteq> Some []" for y x
    using ih keep [OF that] that by simp
  have "ws_at ?g1 ?y ?x = Some [t ! k]"
    by (simp add: g1)
  then have b: "ws_at (write_loop g t sx sy dx dy (k # ks)) ?y ?x = Some [t ! k]"
    using ih by simp
  show ?case
    using a b ih by auto
qed

lemma write_loop_square: "square g sz \<Longrightarrow> square (write_loop g t sx sy dx dy ks) sz"
  by (induction ks arbitrary: g) (simp_all add: square_set_cell)

lemma write_loop_cells_ok:
  "cells_ok g \<Longrightarrow> \<forall>i\<in>set ks. allowed (t ! i) \<Longrightarrow> cells_ok (write_loop g t sx sy dx dy ks)"
  by (induction ks arbitrary: g) (simp_all add: cells_ok_set_cell letter_cell_def)


lemma ws_legal_iff:
  "ws_legal g sz e \<longleftrightarrow>
     (\<forall>k<length (ws_word e).
        0 \<le> ws_x e + int k * ws_dx e \<and> ws_x e + int k * ws_dx e < sz
        \<and> 0 \<le> ws_y e + int k * ws_dy e \<and> ws_y e + int k * ws_dy e < sz
        \<and> ws_at g (ws_y e + int k * ws_dy e) (ws_x e + int k * ws_dx e) = Some [ws_word e ! k])"
  by (auto simp: ws_legal_def list_all_iff Let_def)

lemma js_index_mem: "js_index xs i = Some v \<Longrightarrow> v \<in> set xs"
  by (auto simp: js_index_def nat_less_iff split: if_splits)

lemma ws_legal_mono:
  assumes "ws_legal g sz e" "\<forall>y x. ws_at g y x \<noteq> Some [] \<longrightarrow> ws_at g' y x = ws_at g y x"
  shows "ws_legal g' sz e"
  using assms unfolding ws_legal_iff by auto

lemma square_range:
  assumes "square g sz" "ws_at g cy cx = Some v"
  shows "0 \<le> cx \<and> cx < sz \<and> 0 \<le> cy \<and> cy < sz"
proof -
  note r = ws_at_Some [OF assms(2)]
  then have "g ! nat cy \<in> set g"
    by (simp add: nat_less_iff)
  then have "length (g ! nat cy) = nat sz"
    using assms(1) by (simp add: square_def list_all_iff)
  with r assms(1) show ?thesis
    by (auto simp: square_def split: if_splits)
qed

text \<open>What one successful placement does.\<close>

lemma placement_step:
  assumes fits: "fits_loop g t sx sy dx dy [0..<length t] = Inr True"
    and dir: "(dx, dy) \<in> set directions"
    and sq: "square g sz" and ok: "cells_ok g" and al: "\<forall>u\<in>set t. allowed u"
    and legal: "\<forall>e\<in>set pw. ws_legal g sz e"
  defines "g' \<equiv> write_loop g t sx sy dx dy [0..<length t]"
    and "e' \<equiv> \<lparr>ws_word = t, ws_x = sx, ws_y = sy, ws_dx = dx, ws_dy = dy\<rparr>"
  shows "square g' sz \<and> cells_ok g' \<and> (\<forall>e\<in>set (pw @ [e']). ws_legal g' sz e)"
proof -
  have nz: "(dx, dy) \<noteq> (0, 0)"
    using dir by (auto simp: directions_def)
  have pre: "\<forall>i\<in>set [0..<length t]. ws_at g (sy + int i * dy) (sx + int i * dx) = Some []
                     \<or> ws_at g (sy + int i * dy) (sx + int i * dx) = Some [t ! i]"
    using fits_loop_cells [OF fits] by blast
  note wp = write_loop_props [OF pre _ nz, simplified, folded g'_def]
  have sq': "square g' sz"
    unfolding g'_def by (rule write_loop_square [OF sq])
  have ok': "cells_ok g'"
    unfolding g'_def using al by (intro write_loop_cells_ok [OF ok]) simp
  have old: "ws_legal g' sz e" if "e \<in> set pw" for e
    using legal that wp by (intro ws_legal_mono [of g sz e g']) auto
  have new: "ws_legal g' sz e'"
    unfolding ws_legal_iff
  proof (intro allI impI)
    fix k assume "k < length (ws_word e')"
    then have k: "k < length t" by (simp add: e'_def)
    then have at: "ws_at g' (sy + int k * dy) (sx + int k * dx) = Some [t ! k]"
      using wp by simp
    from square_range [OF sq' at] at
    show "0 \<le> ws_x e' + int k * ws_dx e' \<and> ws_x e' + int k * ws_dx e' < sz
        \<and> 0 \<le> ws_y e' + int k * ws_dy e' \<and> ws_y e' + int k * ws_dy e' < sz
        \<and> ws_at g' (ws_y e' + int k * ws_dy e') (ws_x e' + int k * ws_dx e') = Some [ws_word e' ! k]"
      by (simp add: e'_def)
  qed
  from sq' ok' old new show ?thesis by auto
qed

lemma between_ends:
  fixes a dy m L i :: int
  assumes "0 \<le> a" "a < m" "0 \<le> a + (L - 1) * dy" "a + (L - 1) * dy < m" "0 \<le> i" "i \<le> L - 1"
  shows "0 \<le> a + i * dy \<and> a + i * dy < m"
proof (cases "0 \<le> dy")
  case True
  then have "0 \<le> i * dy" "i * dy \<le> (L - 1) * dy"
    using assms(5,6) by (simp_all add: mult_right_mono)
  with assms show ?thesis by linarith
next
  case False
  then have "i * dy \<le> 0" "(L - 1) * dy \<le> i * dy"
    using assms(5,6) by (simp_all add: mult_right_mono_neg mult_nonneg_nonpos)
  with assms show ?thesis by linarith
qed

lemma attempt_inv:
  assumes "attempt t sz rng g = Inr (rng', Some (g', e'))"
    and "square g sz" "cells_ok g" "\<forall>u\<in>set t. allowed u" "\<forall>e\<in>set pw. ws_legal g sz e"
  shows "square g' sz \<and> cells_ok g' \<and> (\<forall>e\<in>set (pw @ [e']). ws_legal g' sz e)
       \<and> ws_word e' = t \<and> (ws_dx e', ws_dy e') \<in> set directions"
proof -
  obtain v1 rng1 where n1: "Random_next rng = (v1, rng1)" by (cases "Random_next rng")
  obtain v2 rng2 where n2: "Random_next rng1 = (v2, rng2)" by (cases "Random_next rng1")
  obtain v3 rng3 where n3: "Random_next rng2 = (v3, rng3)" by (cases "Random_next rng2")
  define sx where "sx = floor_times v2 sz"
  define sy where "sy = floor_times v3 sz"
  from assms(1) obtain dx dy
    where dir: "js_index directions (floor_times v1 (int (length directions))) = Some (dx, dy)"
    by (auto simp: attempt_def n1 n2 n3 Let_def split: option.splits)
  have mem: "(dx, dy) \<in> set directions"
    using dir by (rule js_index_mem)
  let ?inb = "0 \<le> sx + (int (length t) - 1) * dx \<and> sx + (int (length t) - 1) * dx < sz
              \<and> 0 \<le> sy + (int (length t) - 1) * dy \<and> sy + (int (length t) - 1) * dy < sz"
  let ?fits = "fits_loop g t sx sy dx dy [0..<length t]"
  have unfold: "attempt t sz rng g =
      (if ?inb then
         (case ?fits of
            Inl e \<Rightarrow> Inl e
          | Inr True \<Rightarrow> Inr (rng3, Some (write_loop g t sx sy dx dy [0..<length t],
                             \<lparr>ws_word = t, ws_x = sx, ws_y = sy, ws_dx = dx, ws_dy = dy\<rparr>))
          | Inr False \<Rightarrow> Inr (rng3, None))
       else Inr (rng3, None))"
    unfolding sx_def sy_def attempt_def by (simp add: n1 n2 n3 dir Let_def)
  from assms(1) have fits: "?fits = Inr True"
    and res: "g' = write_loop g t sx sy dx dy [0..<length t]"
      "e' = \<lparr>ws_word = t, ws_x = sx, ws_y = sy, ws_dx = dx, ws_dy = dy\<rparr>"
    unfolding unfold by (auto split: if_splits sum.splits bool.splits)
  from placement_step [OF fits mem assms(2-5)] mem show ?thesis
    unfolding res by simp
qed

lemma place_attempts_inv:
  assumes "place_attempts n t sz rng g pw = Inr (rng', g', pw')"
    and "square g sz" "cells_ok g" "\<forall>u\<in>set t. allowed u" "\<forall>e\<in>set pw. ws_legal g sz e"
  shows "square g' sz \<and> cells_ok g' \<and> (\<forall>e\<in>set pw'. ws_legal g' sz e)
       \<and> (pw' = pw \<or> (\<exists>e. pw' = pw @ [e] \<and> ws_word e = t \<and> (ws_dx e, ws_dy e) \<in> set directions))"
  using assms(1)
proof (induction n arbitrary: rng)
  case 0
  with assms(2-) show ?case by simp
next
  case (Suc n)
  from Suc.prems obtain rng1 r where a: "attempt t sz rng g = Inr (rng1, r)"
    by (auto split: sum.splits)
  show ?case
  proof (cases r)
    case None
    with Suc.prems a have "place_attempts n t sz rng1 g pw = Inr (rng', g', pw')"
      by simp
    then show ?thesis by (rule Suc.IH)
  next
    case (Some p)
    obtain g1 e1 where p: "p = (g1, e1)" by (cases p)
    with Suc.prems a Some have res: "g' = g1" "pw' = pw @ [e1]"
      by simp_all
    from attempt_inv [OF a [unfolded Some p] assms(2-5)] show ?thesis
      unfolding res by blast
  qed
qed

lemma attempt_total:
  assumes "0 \<le> seed rng" "0 \<le> sz" "square g sz"
  shows "\<exists>rng' r. attempt t sz rng g = Inr (rng', r) \<and> 0 \<le> seed rng'
           \<and> (\<forall>g' e'. r = Some (g', e') \<longrightarrow> square g' sz)"
proof -
  obtain v1 rng1 where n1: "Random_next rng = (v1, rng1)" by (cases "Random_next rng")
  obtain v2 rng2 where n2: "Random_next rng1 = (v2, rng2)" by (cases "Random_next rng1")
  obtain v3 rng3 where n3: "Random_next rng2 = (v3, rng3)" by (cases "Random_next rng2")
  have s1: "0 \<le> seed rng1" using next_seed_nonneg [OF assms(1)] n1 by simp
  have s2: "0 \<le> seed rng2" using next_seed_nonneg [OF s1] n2 by simp
  have s3: "0 \<le> seed rng3" using next_seed_nonneg [OF s2] n3 by simp
  define sx where "sx = floor_times v2 sz"
  define sy where "sy = floor_times v3 sz"
  have "0 \<le> floor_times v1 (int (length directions))
        \<and> floor_times v1 (int (length directions)) < int (length directions)"
    using draw_range [OF assms(1), of "int (length directions)"] n1
    by (simp add: directions_def)
  then obtain dx dy
    where dir: "js_index directions (floor_times v1 (int (length directions))) = Some (dx, dy)"
    by (cases "directions ! nat (floor_times v1 (int (length directions)))")
      (simp add: js_index_def)
  let ?inb = "0 \<le> sx + (int (length t) - 1) * dx \<and> sx + (int (length t) - 1) * dx < sz
              \<and> 0 \<le> sy + (int (length t) - 1) * dy \<and> sy + (int (length t) - 1) * dy < sz"
  let ?fits = "fits_loop g t sx sy dx dy [0..<length t]"
  have unfold: "attempt t sz rng g =
      (if ?inb then
         (case ?fits of
            Inl e \<Rightarrow> Inl e
          | Inr True \<Rightarrow> Inr (rng3, Some (write_loop g t sx sy dx dy [0..<length t],
                             \<lparr>ws_word = t, ws_x = sx, ws_y = sy, ws_dx = dx, ws_dy = dy\<rparr>))
          | Inr False \<Rightarrow> Inr (rng3, None))
       else Inr (rng3, None))"
    unfolding sx_def sy_def attempt_def by (simp add: n1 n2 n3 dir Let_def)
  show ?thesis
  proof (cases ?inb)
    case False
    then have "attempt t sz rng g = Inr (rng3, None)"
      unfolding unfold by (rule if_not_P)
    with s3 show ?thesis by simp
  next
    case True
    then have eq: "attempt t sz rng g =
         (case ?fits of
            Inl e \<Rightarrow> Inl e
          | Inr True \<Rightarrow> Inr (rng3, Some (write_loop g t sx sy dx dy [0..<length t],
                             \<lparr>ws_word = t, ws_x = sx, ws_y = sy, ws_dx = dx, ws_dy = dy\<rparr>))
          | Inr False \<Rightarrow> Inr (rng3, None))"
      unfolding unfold by (rule if_P)
    from True have pos: "0 < sz" by linarith
    have y0: "0 \<le> sy \<and> sy < sz"
      using draw_range [OF s2 pos] n3 by (simp add: sy_def)
    have rows: "\<forall>i\<in>set [0..<length t]. 0 \<le> sy + int i * dy \<and> sy + int i * dy < int (length g)"
    proof
      fix i assume "i \<in> set [0..<length t]"
      then have "0 \<le> int i" "int i \<le> int (length t) - 1" by auto
      from between_ends [OF _ _ _ _ this, of sy sz dy] True y0
      have "0 \<le> sy + int i * dy \<and> sy + int i * dy < sz" by blast
      then show "0 \<le> sy + int i * dy \<and> sy + int i * dy < int (length g)"
        using assms(3) by (simp add: square_def)
    qed
    from fits_loop_no_error [OF rows] obtain b where b: "?fits = Inr b" by blast
    show ?thesis
    proof (cases b)
      case True
      with b s3 write_loop_square [OF assms(3)] show ?thesis
        unfolding eq by simp
    next
      case False
      with b s3 show ?thesis
        unfolding eq by simp
    qed
  qed
qed

lemma place_attempts_total:
  assumes "0 \<le> seed rng" "0 \<le> sz" "square g sz"
  shows "\<exists>rng' g' pw'. place_attempts n t sz rng g pw = Inr (rng', g', pw')
           \<and> 0 \<le> seed rng' \<and> square g' sz"
  using assms(1)
proof (induction n arbitrary: rng)
  case 0
  with assms show ?case by simp
next
  case (Suc n)
  from attempt_total [OF Suc.prems assms(2,3), of t] obtain rng1 r
    where a: "attempt t sz rng g = Inr (rng1, r)" "0 \<le> seed rng1"
      "\<forall>g' e'. r = Some (g', e') \<longrightarrow> square g' sz"
    by blast
  show ?case
  proof (cases r)
    case None
    with a Suc.IH [OF a(2)] show ?thesis by simp
  next
    case (Some p)
    with a show ?thesis by (cases p) simp
  qed
qed

lemma cleanWord_allowed: "\<forall>u\<in>set (cleanWord up w). allowed u"
  by (simp add: cleanWord_def)

lemma place_words_inv:
  assumes "place_words up ws sz rng g pw = Inr (rng', g', pw')"
    and "square g sz" "cells_ok g" "\<forall>e\<in>set pw. ws_legal g sz e"
  shows "square g' sz \<and> cells_ok g' \<and> (\<forall>e\<in>set pw'. ws_legal g' sz e)
       \<and> (\<exists>es. pw' = pw @ es
              \<and> subseq (map ws_word es) (map (\<lambda>w. cleanWord up (wp_word w)) ws)
              \<and> (\<forall>e\<in>set es. (ws_dx e, ws_dy e) \<in> set directions))"
  using assms
proof (induction ws arbitrary: rng g pw)
  case Nil
  then show ?case by simp
next
  case (Cons item ws)
  let ?t = "cleanWord up (wp_word item)"
  from Cons.prems(1) obtain rng1 g1 pw1
    where step: "place_attempts 100 ?t sz rng g pw = Inr (rng1, g1, pw1)"
      and rest: "place_words up ws sz rng1 g1 pw1 = Inr (rng', g', pw')"
    by (auto split: sum.splits)
  note a = place_attempts_inv [OF step Cons.prems(2,3) cleanWord_allowed Cons.prems(4)]
  then have inv1: "square g1 sz" "cells_ok g1" "\<forall>e\<in>set pw1. ws_legal g1 sz e"
    by simp_all
  from Cons.IH [OF rest inv1] obtain es
    where es: "pw' = pw1 @ es" "subseq (map ws_word es) (map (\<lambda>w. cleanWord up (wp_word w)) ws)"
      "\<forall>e\<in>set es. (ws_dx e, ws_dy e) \<in> set directions"
      and inv': "square g' sz" "cells_ok g'" "\<forall>e\<in>set pw'. ws_legal g' sz e"
    by blast
  from a consider "pw1 = pw"
    | e where "pw1 = pw @ [e]" "ws_word e = ?t" "(ws_dx e, ws_dy e) \<in> set directions"
    by blast
  then have "\<exists>es. pw' = pw @ es
              \<and> subseq (map ws_word es) (map (\<lambda>w. cleanWord up (wp_word w)) (item # ws))
              \<and> (\<forall>e\<in>set es. (ws_dx e, ws_dy e) \<in> set directions)"
  proof cases
    case 1
    with es show ?thesis
      by (intro exI [of _ es]) (simp add: list_emb.intros)
  next
    case (2 e)
    with es show ?thesis
      by (intro exI [of _ "e # es"]) simp
  qed
  with inv' show ?case by simp
qed

lemma place_words_total:
  assumes "0 \<le> seed rng" "0 \<le> sz" "square g sz"
  shows "\<exists>rng' g' pw'. place_words up ws sz rng g pw = Inr (rng', g', pw') \<and> 0 \<le> seed rng'"
  using assms(1,3)
proof (induction ws arbitrary: rng g pw)
  case Nil
  then show ?case by simp
next
  case (Cons item ws)
  from place_attempts_total [OF Cons.prems(1) assms(2) Cons.prems(2)]
  obtain rng1 g1 pw1
    where "place_attempts 100 (cleanWord up (wp_word item)) sz rng g pw = Inr (rng1, g1, pw1)"
      "0 \<le> seed rng1" "square g1 sz"
    by blast
  with Cons.IH [of rng1 g1 pw1] show ?case by simp
qed


lemma alphabet_allowed: "\<forall>u\<in>set alphabet. allowed u"
  by (simp add: alphabet_def js_def allowed_def)

lemma alphabet_draw:
  assumes "0 \<le> seed rng"
  shows "letter_cell (map_option (\<lambda>u. [u])
           (js_index alphabet (floor_times (fst (Random_next rng)) (int (length alphabet)))))"
proof -
  let ?j = "floor_times (fst (Random_next rng)) (int (length alphabet))"
  have "0 \<le> ?j \<and> ?j < int (length alphabet)"
    using draw_range [OF assms, of "int (length alphabet)"] by (simp add: alphabet_def js_def)
  then have j: "js_index alphabet ?j = Some (alphabet ! nat ?j)" "nat ?j < length alphabet"
    by (simp_all add: js_index_def nat_less_iff)
  then have "allowed (alphabet ! nat ?j)"
    using alphabet_allowed nth_mem by blast
  with j(1) show ?thesis
    by (simp add: letter_cell_def)
qed

lemma fill_rel_weaken: "(a \<longrightarrow> b) \<Longrightarrow> fill_rel b c c' \<Longrightarrow> fill_rel a c c'"
  by (auto simp: fill_rel_def)

lemma fill_row_rel:
  "fill_row rng cs = (rng', cs') \<Longrightarrow>
     list_all2 (fill_rel (0 \<le> seed rng)) cs cs' \<and> (0 \<le> seed rng \<longrightarrow> 0 \<le> seed rng')"
proof (induction cs arbitrary: rng rng' cs')
  case Nil
  then show ?case by simp
next
  case (Cons c cs)
  show ?case
  proof (cases "c = Some []")
    case True
    obtain v rng1 where nx: "Random_next rng = (v, rng1)" by (cases "Random_next rng")
    obtain rng2 cs2 where rest: "fill_row rng1 cs = (rng2, cs2)" by (cases "fill_row rng1 cs")
    let ?l = "map_option (\<lambda>u. [u]) (js_index alphabet (floor_times v (int (length alphabet))))"
    from Cons.prems True have res: "rng' = rng2" "cs' = ?l # cs2"
      by (simp_all add: nx rest Let_def)
    have mono: "0 \<le> seed rng \<longrightarrow> 0 \<le> seed rng1"
      using next_seed_nonneg [of rng] nx by simp
    have head: "fill_rel (0 \<le> seed rng) c ?l"
      using alphabet_draw [of rng] nx True by (simp add: fill_rel_def)
    from Cons.IH [OF rest] mono
    have "list_all2 (fill_rel (0 \<le> seed rng)) cs cs2" "0 \<le> seed rng \<longrightarrow> 0 \<le> seed rng2"
      by (auto elim!: list_all2_mono fill_rel_weaken [rotated])
    with head show ?thesis
      by (simp add: res)
  next
    case False
    obtain rng2 cs2 where rest: "fill_row rng cs = (rng2, cs2)" by (cases "fill_row rng cs")
    from Cons.prems False have res: "rng' = rng2" "cs' = c # cs2"
      by (simp_all add: rest)
    from Cons.IH [OF rest] False show ?thesis
      by (simp add: res fill_rel_def)
  qed
qed

lemma fill_grid_rel:
  "fill_grid rng g = (rng', g') \<Longrightarrow>
     list_all2 (list_all2 (fill_rel (0 \<le> seed rng))) g g' \<and> (0 \<le> seed rng \<longrightarrow> 0 \<le> seed rng')"
proof (induction g arbitrary: rng rng' g')
  case Nil
  then show ?case by simp
next
  case (Cons row rows)
  obtain rng1 row1 where r1: "fill_row rng row = (rng1, row1)" by (cases "fill_row rng row")
  obtain rng2 rows2 where r2: "fill_grid rng1 rows = (rng2, rows2)" by (cases "fill_grid rng1 rows")
  from Cons.prems have res: "rng' = rng2" "g' = row1 # rows2"
    by (simp_all add: r1 r2)
  note a = fill_row_rel [OF r1]
  from Cons.IH [OF r2] a
  have "list_all2 (list_all2 (fill_rel (0 \<le> seed rng))) rows rows2" "0 \<le> seed rng \<longrightarrow> 0 \<le> seed rng2"
    by (auto elim!: list_all2_mono fill_rel_weaken [rotated])
  with a show ?case
    by (simp add: res)
qed

lemma fill_square:
  assumes "list_all2 (list_all2 R) g g'" "square g sz"
  shows "square g' sz"
proof -
  have len: "length g' = length g"
    using assms(1) by (simp add: list_all2_lengthD)
  have "length row' = nat sz" if "row' \<in> set g'" for row'
  proof -
    from that obtain k where k: "k < length g'" "g' ! k = row'"
      by (auto simp: in_set_conv_nth)
    then have "list_all2 R (g ! k) row'"
      using assms(1) len by (auto dest: list_all2_nthD)
    then have "length row' = length (g ! k)"
      by (simp add: list_all2_lengthD)
    moreover have "g ! k \<in> set g"
      using k len by simp
    ultimately show ?thesis
      using assms(2) by (simp add: square_def list_all_iff)
  qed
  with len assms(2) show ?thesis
    by (simp add: square_def list_all_iff)
qed

lemma fill_keeps:
  assumes "list_all2 (list_all2 (fill_rel b)) g g'" "ws_at g cy cx = Some v" "v \<noteq> []"
  shows "ws_at g' cy cx = Some v"
proof -
  note r = ws_at_Some [OF assms(2)]
  have len: "length g' = length g"
    using assms(1) by (simp add: list_all2_lengthD)
  have "nat cy < length g" "nat cx < length (g ! nat cy)"
    using r by (simp_all add: nat_less_iff)
  note row = list_all2_nthD [OF assms(1) this(1)]
  then have rlen: "length (g' ! nat cy) = length (g ! nat cy)"
    by (simp add: list_all2_lengthD)
  have "fill_rel b (g ! nat cy ! nat cx) (g' ! nat cy ! nat cx)"
    using \<open>nat cx < length (g ! nat cy)\<close> by (rule list_all2_nthD [OF row])
  then have "g' ! nat cy ! nat cx = Some v"
    using r assms(3) by (simp add: fill_rel_def)
  then show ?thesis
    using r len rlen by (simp add: ws_at_in_range)
qed

lemma fill_letters:
  assumes "list_all2 (list_all2 (fill_rel True)) g g'" "cells_ok g"
  shows "list_all (list_all letter_cell) g'"
proof -
  have "letter_cell c'" if "row' \<in> set g'" "c' \<in> set row'" for row' c'
  proof -
    from that(1) obtain k where k: "k < length g'" "g' ! k = row'"
      by (auto simp: in_set_conv_nth)
    have len: "length g' = length g"
      using assms(1) by (simp add: list_all2_lengthD)
    have row: "list_all2 (fill_rel True) (g ! k) row'"
      using assms(1) k len by (auto dest: list_all2_nthD)
    from that(2) obtain i where i: "i < length row'" "row' ! i = c'"
      by (auto simp: in_set_conv_nth)
    have rlen: "length row' = length (g ! k)"
      using row by (simp add: list_all2_lengthD)
    have rel: "fill_rel True (g ! k ! i) c'"
      using row i by (auto dest: list_all2_nthD2)
    have "g ! k \<in> set g" "g ! k ! i \<in> set (g ! k)"
      using k len i rlen by simp_all
    then have "g ! k ! i = Some [] \<or> letter_cell (g ! k ! i)"
      using assms(2) by (auto simp: cells_ok_def list_all_iff)
    moreover have "\<not> letter_cell (Some [])"
      by (simp add: letter_cell_def)
    ultimately show ?thesis
      using rel by (auto simp: fill_rel_def split: if_splits)
  qed
  then show ?thesis
    by (simp add: list_all_iff)
qed

lemma initial_grid:
  "0 \<le> sz \<Longrightarrow> square (replicate (nat sz) (replicate (nat sz) (Some []))) sz
     \<and> cells_ok (replicate (nat sz) (replicate (nat sz) (Some [])))"
  by (simp add: square_def cells_ok_def list_all_iff)


lemma generateWordSearch_inv:
  assumes "generateWordSearch up words sz s = Inr r"
  shows "square (ws_grid r) sz
       \<and> (\<forall>e\<in>set (ws_placedWords r). ws_legal (ws_grid r) sz e
              \<and> (ws_dx e, ws_dy e) \<in> set directions)
       \<and> subseq (map ws_word (ws_placedWords r))
            (map (\<lambda>w. cleanWord up (wp_word w)) (sortedWords words))"
proof -
  let ?g0 = "replicate (nat sz) (replicate (nat sz) (Some []))"
  from assms have sz: "0 \<le> sz" "sz < 2 ^ 32"
    by (auto simp: generateWordSearch_def split: if_splits)
  with assms obtain rng g pw
    where run: "place_words up (sortedWords words) sz (new_Random s) ?g0 [] = Inr (rng, g, pw)"
      and r: "r = \<lparr>ws_grid = snd (fill_grid rng g), ws_placedWords = pw\<rparr>"
    by (auto simp: generateWordSearch_def split: sum.splits)
  from place_words_inv [OF run] initial_grid [OF sz(1)]
  have inv: "square g sz" "\<forall>e\<in>set pw. ws_legal g sz e"
    "subseq (map ws_word pw) (map (\<lambda>w. cleanWord up (wp_word w)) (sortedWords words))"
    "\<forall>e\<in>set pw. (ws_dx e, ws_dy e) \<in> set directions"
    by auto
  obtain rng' g' where f: "fill_grid rng g = (rng', g')" by (cases "fill_grid rng g")
  note rel = fill_grid_rel [OF f, THEN conjunct1]
  have sq: "square g' sz"
    by (rule fill_square [OF rel inv(1)])
  have "ws_legal g' sz e" if "e \<in> set pw" for e
    using inv(2) that fill_keeps [OF rel] unfolding ws_legal_iff by auto
  with sq inv(3,4) show ?thesis
    by (simp add: r f)
qed

lemma generateWordSearch_total:
  assumes "0 \<le> sz" "sz < 2 ^ 32" "0 \<le> s"
  shows "\<exists>r. generateWordSearch up words sz s = Inr r \<and> list_all (list_all letter_cell) (ws_grid r)"
proof -
  let ?g0 = "replicate (nat sz) (replicate (nat sz) (Some []))"
  have "0 \<le> seed (new_Random s)"
    using assms(3) by (simp add: new_Random_def)
  from place_words_total [OF this assms(1) initial_grid [OF assms(1), THEN conjunct1]]
  obtain rng g pw
    where run: "place_words up (sortedWords words) sz (new_Random s) ?g0 [] = Inr (rng, g, pw)"
      and nn: "0 \<le> seed rng"
    by blast
  from place_words_inv [OF run] initial_grid [OF assms(1)]
  have ok: "cells_ok g" by auto
  obtain rng' g' where f: "fill_grid rng g = (rng', g')" by (cases "fill_grid rng g")
  from fill_grid_rel [OF f] nn have "list_all2 (list_all2 (fill_rel True)) g g'"
    by simp
  from fill_letters [OF this ok] show ?thesis
    using assms(1,2) by (simp add: generateWordSearch_def run f)
qed

text \<open>The result depends on the words' text only, not on the other fields of a pair.\<close>

lemma insort_key_map:
  "map f (insort_key (\<lambda>x. k (f x)) a ys) = insort_key k (f a) (map f ys)"
  by (induction ys) simp_all

lemma sort_key_map: "map f (sort_key (\<lambda>x. k (f x)) xs) = sort_key k (map f xs)"
  by (induction xs) (simp_all add: insort_key_map)

lemma sortedWords_words:
  "map wp_word (sortedWords words) = sort_key (\<lambda>w. - int (length w)) (map wp_word words)"
  unfolding sortedWords_def by (rule sort_key_map)

lemma place_words_cong:
  assumes "map wp_word ws = map wp_word ws'"
  shows "place_words up ws sz rng g pw = place_words up ws' sz rng g pw"
  using assms
proof (induction ws arbitrary: ws' rng g pw)
  case Nil
  then show ?case by simp
next
  case (Cons item ws)
  then obtain item' rest' where ws': "ws' = item' # rest'" "wp_word item = wp_word item'"
    "map wp_word ws = map wp_word rest'"
    by (cases ws') auto
  show ?case
    unfolding ws' using Cons.IH [OF ws'(3)] ws'(2) by (simp split: sum.splits)
qed

text \<open>The draws of a small word search, evaluated one call at a time.\<close>

lemma place_attempts_numeral:
  "place_attempts (numeral k) term sz rng grid placedWords =
     (case attempt term sz rng grid of
        Inl e \<Rightarrow> Inl e
      | Inr (rng', Some (grid', entry)) \<Rightarrow> Inr (rng', grid', placedWords @ [entry])
      | Inr (rng', None) \<Rightarrow> place_attempts (pred_numeral k) term sz rng' grid placedWords)"
  by (simp add: numeral_eq_Suc)

lemma next_at_2:
  "Random_next \<lparr>seed = 2\<rparr> = ((5243311232833150, 54), \<lparr>seed = 67899\<rparr>)"
  by code_simp

lemma floor_at_2: "floor_times (5243311232833150, 54) 8 = 2"
  by code_simp

lemma next_at_67899:
  "Random_next \<lparr>seed = 67899\<rparr> = ((6867834987308341, 54), \<lparr>seed = 88936\<rparr>)"
  by code_simp

lemma floor_at_67899: "floor_times (6867834987308341, 54) 2 = 0"
  by code_simp

lemma next_at_88936:
  "Random_next \<lparr>seed = 88936\<rparr> = ((4965851811345801, 55), \<lparr>seed = 32153\<rparr>)"
  by code_simp

lemma floor_at_88936: "floor_times (4965851811345801, 55) 2 = 0"
  by code_simp

lemma next_at_32153:
  "Random_next \<lparr>seed = 32153\<rparr> = ((6083566163310145, 55), \<lparr>seed = 39390\<rparr>)"
  by code_simp

lemma floor_at_32153: "floor_times (6083566163310145, 55) 26 = 4"
  by code_simp

lemma next_at_39390:
  "Random_next \<lparr>seed = 39390\<rparr> = ((6412803080513405, 53), \<lparr>seed = 166087\<rparr>)"
  by code_simp

lemma floor_at_39390: "floor_times (6412803080513405, 53) 26 = 18"
  by code_simp

lemmas hi_draws =
  next_at_2 floor_at_2 next_at_67899 floor_at_67899 next_at_88936 floor_at_88936
  next_at_32153 floor_at_32153 next_at_39390 floor_at_39390


lemma word_search_run:
  "generateWordSearch (\<lambda>w. w) [\<lparr>wp_id = i, wp_word = js ''HI'', wp_definition = d\<rparr>] 2 2
   = Inr \<lparr>ws_grid = [[Some (js ''H''), Some (js ''E'')], [Some (js ''S''), Some (js ''I'')]],
          ws_placedWords = [\<lparr>ws_word = js ''HI'', ws_x = 0, ws_y = 0, ws_dx = 1, ws_dy = 1\<rparr>]\<rparr>"
  by (simp add: generateWordSearch_def sortedWords_def new_Random_def cleanWord_def allowed_def
      place_attempts_numeral attempt_def hi_draws directions_def js_index_def alphabet_def
      js_def set_cell_def numeral_2_eq_2)

text \<open>
  C6. For every word list, every grid size and every seed that is a safe integer (the seeds
  of the specification are 32-bit-range integers), every entry of the \<^verbatim>\<open>placedWords\<close> that
  \<^verbatim>\<open>generateWordSearch\<close> returns is legal: for each \<open>k\<close> below the length of its word, the
  cell \<open>(x + k dx, y + k dy)\<close> lies within \<open>[0, size)\<close> in both coordinates and the returned
  grid holds the \<open>k\<close>-th letter of the word there. The call does return when the seed is
  not negative and \<open>0 \<le> size < 2^32\<close>.
\<close>

theorem C6_word_search_legality:
  assumes "safe_integer s"
  shows "(0 \<le> s \<and> 0 \<le> sz \<and> sz < 2 ^ 32 \<longrightarrow> (\<exists>r. generateWordSearch up words sz s = Inr r))
   \<and> (\<forall>r. generateWordSearch up words sz s = Inr r \<longrightarrow>
          (\<forall>e\<in>set (ws_placedWords r). ws_legal (ws_grid r) sz e))"
  using generateWordSearch_total [of sz s up words] generateWordSearch_inv [of up words sz s]
  by blast

theorem C6_word_search_legality_witness:
  "safe_integer 2
   \<and> generateWordSearch (\<lambda>w. w) [\<lparr>wp_id = [], wp_word = js ''HI'', wp_definition = []\<rparr>] 2 2
     = Inr \<lparr>ws_grid = [[Some (js ''H''), Some (js ''E'')], [Some (js ''S''), Some (js ''I'')]],
            ws_placedWords = [\<lparr>ws_word = js ''HI'', ws_x = 0, ws_y = 0, ws_dx = 1, ws_dy = 1\<rparr>]\<rparr>
   \<and> ws_legal [[Some (js ''H''), Some (js ''E'')], [Some (js ''S''), Some (js ''I'')]] 2
        \<lparr>ws_word = js ''HI'', ws_x = 0, ws_y = 0, ws_dx = 1, ws_dy = 1\<rparr>"
  using C6_word_search_legality [of 2 2 "\<lambda>w. w"
      "[\<lparr>wp_id = [], wp_word = js ''HI'', wp_definition = []\<rparr>]"]
    word_search_run [of "[]" "[]"]
  by (simp add: safe_integer_def)




text \<open>
  C9. The result of \<^verbatim>\<open>generateWordSearch\<close> is determined by the texts of the words in the
  list, the grid size and the seed: two calls with these equal return the same grid and
  the same \<^verbatim>\<open>placedWords\<close>, or throw the same error. In particular two calls with
  identical arguments do. For a non-negative seed and \<open>0 \<le> size < 2^32\<close> the calls return.
\<close>

theorem C9_word_search_deterministic:
  assumes "safe_integer S" "map wp_word W = map wp_word W'" "N = N'" "S = S'"
  shows "generateWordSearch up W N S = generateWordSearch up W' N' S'
     \<and> (0 \<le> S \<and> 0 \<le> N \<and> N < 2 ^ 32 \<longrightarrow>
          (\<exists>r. generateWordSearch up W N S = Inr r \<and> generateWordSearch up W' N' S' = Inr r))"
proof -
  have "map wp_word (sortedWords W) = map wp_word (sortedWords W')"
    unfolding sortedWords_words assms(2) ..
  then have "place_words up (sortedWords W) N (new_Random S) g pw
             = place_words up (sortedWords W') N (new_Random S) g pw" for g pw
    by (rule place_words_cong)
  then have eq: "generateWordSearch up W N S = generateWordSearch up W' N' S'"
    unfolding generateWordSearch_def assms(3,4) [symmetric] by simp
  moreover have "\<exists>r. generateWordSearch up W N S = Inr r" if "0 \<le> S \<and> 0 \<le> N \<and> N < 2 ^ 32"
    using generateWordSearch_total [of N S up W] that by blast
  ultimately show ?thesis
    by auto
qed

theorem C9_word_search_deterministic_witness:
  "safe_integer 2
   \<and> map wp_word [\<lparr>wp_id = js ''1'', wp_word = js ''HI'', wp_definition = js ''a greeting''\<rparr>]
     = map wp_word [\<lparr>wp_id = js ''2'', wp_word = js ''HI'', wp_definition = []\<rparr>]
   \<and> generateWordSearch (\<lambda>w. w)
       [\<lparr>wp_id = js ''1'', wp_word = js ''HI'', wp_definition = js ''a greeting''\<rparr>] 2 2
     = generateWordSearch (\<lambda>w. w) [\<lparr>wp_id = js ''2'', wp_word = js ''HI'', wp_definition = []\<rparr>] 2 2"
  using C9_word_search_deterministic [of 2
      "[\<lparr>wp_id = js ''1'', wp_word = js ''HI'', wp_definition = js ''a greeting''\<rparr>]"
      "[\<lparr>wp_id = js ''2'', wp_word = js ''HI'', wp_definition = []\<rparr>]" 2 2 2 "\<lambda>w. w"]
  by (simp add: safe_integer_def)

end
